theory Spec2Isabelle
  imports Main "HOL-Library.AList"
begin

section \<open>Containers of the source language\<close>

text \<open>
  A TypeScript \<open>Set<T>\<close> keeps its members in insertion order and without duplicates.
  It is modelled as a list: \<open>add\<close> appends a new member and ignores a present one,
  \<open>delete\<close> removes the member, \<open>has\<close> is list membership and \<open>size\<close> is the length.
\<close>

definition set_add :: "'a \<Rightarrow> 'a list \<Rightarrow> 'a list" where
  "set_add x xs = (if x \<in> set xs then xs else xs @ [x])"

definition set_delete :: "'a \<Rightarrow> 'a list \<Rightarrow> 'a list" where
  "set_delete x xs = removeAll x xs"

section \<open>The in-memory postback queue (class QueueService)\<close>

datatype status = Pending | Processing | Completed | Failed

datatype http_method = GET | POST | PUT | PATCH

text \<open>
  \<open>interface PostbackRequest\<close>. The payload and the header record are kept as association
  lists of opaque texts; the optional fields are options.
\<close>

record PostbackRequest =
  postbackUrl :: string
  payload :: "(string \<times> string) list"
  req_method :: "http_method option"
  headers :: "(string \<times> string) list option"

text \<open>
  \<open>interface QueuedPostback extends PostbackRequest\<close>. The field \<open>id\<close> is called
  \<open>item_id\<close> here; \<open>createdAt\<close> is the creation time in milliseconds.
\<close>

record QueuedPostback = PostbackRequest +
  item_id :: string
  createdAt :: int
  status :: status
  retries :: nat

text \<open>
  The service owns the \<open>queue\<close> map (a \<open>Map\<close> in insertion order, here an association
  list updated with \<open>AList.update\<close>, which overwrites in place or appends) and the
  \<open>processing\<close> set. The other three fields are the callbacks that the service has handed
  to the event loop and that have not run yet:
  \<^item> \<open>immediates\<close>: the number of pending \<open>setImmediate(() => this.processQueue())\<close>;
  \<^item> \<open>timers\<close>: the pending retry \<open>setTimeout\<close> callbacks, each with its due time and
    the id of the item it closes over;
  \<^item> \<open>batches\<close>: for every \<open>processQueue\<close> call suspended in \<open>Promise.allSettled\<close>,
    the ids whose \<open>processPostback\<close> is still awaiting its HTTP call, and whether
    \<open>pending.length > concurrentLimit\<close> held when the batch was taken.
\<close>

record QueueService =
  queue :: "(string \<times> QueuedPostback) list"
  processing :: "string list"
  immediates :: nat
  timers :: "(int \<times> string) list"
  batches :: "(string list \<times> bool) list"

definition MAX_RETRIES :: nat where
  "MAX_RETRIES = 3"

definition RETRY_DELAY :: int where
  "RETRY_DELAY = 1000"

definition concurrentLimit :: nat where
  "concurrentLimit = 10"

definition new_service :: QueueService where
  "new_service = \<lparr>queue = [], processing = [], immediates = 0, timers = [], batches = []\<rparr>"

text \<open>
  \<open>enqueue\<close>. The id comes from \<open>generateId\<close> (clock and random suffix) and the creation
  time from the clock; both are arguments here. The call stores the item, schedules one
  \<open>processQueue\<close> with \<open>setImmediate\<close> and returns the id.
\<close>

definition enqueue ::
  "string \<Rightarrow> int \<Rightarrow> PostbackRequest \<Rightarrow> QueueService \<Rightarrow> string \<times> QueueService" where
  "enqueue newId now request s =
     (let queued = \<lparr>postbackUrl = postbackUrl request, payload = payload request,
                     req_method = req_method request, headers = headers request,
                     item_id = newId, createdAt = now, status = Pending, retries = 0\<rparr>
      in (newId, s\<lparr>queue := AList.update newId queued (queue s),
                    immediates := Suc (immediates s)\<rparr>))"

text \<open>\<open>getStatus\<close> and \<open>getAllItems\<close>.\<close>

definition getStatus :: "QueueService \<Rightarrow> string \<Rightarrow> QueuedPostback option" where
  "getStatus s i = map_of (queue s) i"

definition getAllItems :: "QueueService \<Rightarrow> QueuedPostback list" where
  "getAllItems s = map snd (queue s)"

text \<open>
  \<open>executePostback\<close> awaits \<open>fetch\<close>, which either resolves with a response carrying a
  status code or rejects (transport error, or the 30 second abort signal). The function
  returns normally exactly when the response is \<open>ok\<close> (a 2xx code) and throws otherwise.
\<close>

datatype fetch_result = Response nat | Rejected

definition response_ok :: "nat \<Rightarrow> bool" where
  "response_ok code = (200 \<le> code \<and> code \<le> 299)"

definition executePostback :: "fetch_result \<Rightarrow> bool" where
  "executePostback r = (case r of Response code \<Rightarrow> response_ok code | Rejected \<Rightarrow> False)"

text \<open>
  \<open>processPostback\<close> runs in two parts. Up to the \<open>await\<close> it adds the id to
  \<open>processing\<close> and marks the item; \<open>processPostback_begin\<close> is that part. When the HTTP
  call has settled the rest runs: \<open>processPostback_settle\<close>, with the result of the call and
  the time at which it settled. The \<open>finally\<close> block removes the id from \<open>processing\<close> on
  every path. The item is the object stored in the map under its id; an item that is no
  longer stored under its id leaves only the \<open>finally\<close> block visible.
\<close>

definition processPostback_begin :: "string \<Rightarrow> QueueService \<Rightarrow> QueueService" where
  "processPostback_begin i s =
     s\<lparr>processing := set_add i (processing s),
       queue := AList.map_entry i (\<lambda>item. item\<lparr>status := Processing\<rparr>) (queue s)\<rparr>"

definition processPostback_settle ::
  "string \<Rightarrow> fetch_result \<Rightarrow> int \<Rightarrow> QueueService \<Rightarrow> QueueService" where
  "processPostback_settle i r now s =
     (case map_of (queue s) i of
        None \<Rightarrow> s\<lparr>processing := set_delete i (processing s)\<rparr>
      | Some item \<Rightarrow>
          if executePostback r
          then s\<lparr>queue := AList.update i (item\<lparr>status := Completed\<rparr>) (queue s),
                 processing := set_delete i (processing s)\<rparr>
          else
            (let item' = item\<lparr>retries := retries item + 1\<rparr>
             in if retries item' < MAX_RETRIES
                then s\<lparr>queue := AList.update i (item'\<lparr>status := Pending\<rparr>) (queue s),
                       timers := timers s @ [(now + RETRY_DELAY * int (retries item'), i)],
                       processing := set_delete i (processing s)\<rparr>
                else s\<lparr>queue := AList.update i (item'\<lparr>status := Failed\<rparr>) (queue s),
                       processing := set_delete i (processing s)\<rparr>))"

text \<open>The retry timer's callback: \<open>this.processing.delete(item.id)\<close>, then a new pass is scheduled.\<close>

definition retry_timer_callback :: "string \<Rightarrow> QueueService \<Rightarrow> QueueService" where
  "retry_timer_callback i s =
     s\<lparr>processing := set_delete i (processing s), immediates := Suc (immediates s)\<rparr>"

text \<open>
  \<open>processQueue\<close>. \<open>pending_items\<close> is the filter of its first statement. The pass returns at
  once when nothing is pending; otherwise it starts \<open>processPostback\<close> for the first
  \<open>concurrentLimit\<close> pending items, in order, and suspends until all of them have settled.
  \<open>processQueue_settled\<close> is its last statement, run when the batch has settled.
\<close>

definition pending_items :: "QueueService \<Rightarrow> QueuedPostback list" where
  "pending_items s =
     filter (\<lambda>item. status item = Pending \<and> item_id item \<notin> set (processing s))
       (map snd (queue s))"

definition toProcess :: "QueueService \<Rightarrow> string list" where
  "toProcess s = map item_id (take concurrentLimit (pending_items s))"

definition processQueue_begin :: "QueueService \<Rightarrow> QueueService" where
  "processQueue_begin s =
     (if pending_items s = [] then s
      else (fold processPostback_begin (toProcess s) s)
             \<lparr>batches := batches s @ [(toProcess s, length (pending_items s) > concurrentLimit)]\<rparr>)"

definition processQueue_settled :: "bool \<Rightarrow> QueueService \<Rightarrow> QueueService" where
  "processQueue_settled again s = (if again then s\<lparr>immediates := Suc (immediates s)\<rparr> else s)"

text \<open>
  \<open>cleanup\<close>, with the clock as an argument. The ids to delete are collected first and
  deleted afterwards, as in the source.
\<close>

definition cleanup :: "int \<Rightarrow> int \<Rightarrow> QueueService \<Rightarrow> QueueService" where
  "cleanup now olderThanMs s =
     (let toDelete =
            map fst (filter (\<lambda>(i, item). (status item = Completed \<or> status item = Failed)
                                      \<and> now - createdAt item > olderThanMs) (queue s))
      in s\<lparr>queue := fold AList.delete toDelete (queue s)\<rparr>)"

text \<open>
  The event loop. Each event is one callback that runs to completion:
  \<^item> \<open>Enqueue\<close>: a call of \<open>enqueue\<close> with the generated id and the clock;
  \<^item> \<open>RunProcessQueue\<close>: one scheduled \<open>setImmediate\<close> callback runs \<open>processQueue\<close> up
    to its \<open>await\<close>;
  \<^item> \<open>FetchSettled i r now\<close>: the HTTP call of the in-flight item \<open>i\<close> settles with \<open>r\<close>
    at time \<open>now\<close>; the rest of \<open>processPostback\<close> runs, and when this was the last
    unsettled item of its batch, so does the rest of that \<open>processQueue\<close>;
  \<^item> \<open>TimerFired due i now\<close>: the retry timer set for item \<open>i\<close> runs, not before it is due;
  \<^item> \<open>Cleanup\<close>: the hourly sweep, or any other call of \<open>cleanup\<close>.
  An event whose callback does not exist in the state (no scheduled pass, no such in-flight
  item, no such timer) changes nothing.
\<close>

datatype event =
    Enqueue string int PostbackRequest
  | RunProcessQueue
  | FetchSettled string fetch_result int
  | TimerFired int string int
  | Cleanup int int

definition in_flight :: "QueueService \<Rightarrow> string list" where
  "in_flight s = concat (map fst (batches s))"

fun settle_batches ::
  "string \<Rightarrow> (string list \<times> bool) list \<Rightarrow> (string list \<times> bool) list \<times> nat" where
  "settle_batches i [] = ([], 0)"
| "settle_batches i ((ids, again) # bs) =
     (let (bs', n) = settle_batches i bs
      in if i \<in> set ids
         then (if removeAll i ids = [] then (bs', n + (if again then 1 else 0))
               else ((removeAll i ids, again) # bs', n))
         else ((ids, again) # bs', n))"

definition allSettled :: "string \<Rightarrow> QueueService \<Rightarrow> QueueService" where
  "allSettled i s =
     (let (bs', n) = settle_batches i (batches s)
      in ((processQueue_settled True ^^ n) s)\<lparr>batches := bs'\<rparr>)"

fun step :: "event \<Rightarrow> QueueService \<Rightarrow> QueueService" where
  "step (Enqueue newId now request) s = snd (enqueue newId now request s)"
| "step RunProcessQueue s =
     (if immediates s = 0 then s
      else processQueue_begin (s\<lparr>immediates := immediates s - 1\<rparr>))"
| "step (FetchSettled i r now) s =
     (if i \<in> set (in_flight s) then allSettled i (processPostback_settle i r now s) else s)"
| "step (TimerFired due i now) s =
     (if (due, i) \<in> set (timers s) \<and> due \<le> now
      then retry_timer_callback i (s\<lparr>timers := remove1 (due, i) (timers s)\<rparr>)
      else s)"
| "step (Cleanup now olderThanMs) s = cleanup now olderThanMs s"

fun run :: "event list \<Rightarrow> QueueService \<Rightarrow> QueueService" where
  "run [] s = s"
| "run (e # es) s = run es (step e s)"

text \<open>
  \<open>executions i es s\<close> counts how often \<open>processPostback\<close> is started for the item \<open>i\<close>
  while the events \<open>es\<close> run from the state \<open>s\<close>: once for every pass that takes it.
\<close>

fun executions :: "string \<Rightarrow> event list \<Rightarrow> QueueService \<Rightarrow> nat" where
  "executions i [] s = 0"
| "executions i (e # es) s =
     (if e = RunProcessQueue \<and> immediates s \<noteq> 0 \<and> i \<in> set (toProcess s) then 1 else 0)
       + executions i es (step e s)"

text \<open>
  \<open>unfinished i s\<close>: the item \<open>i\<close> is stored, has not been retried, and is in one of the
  two states that come before any outcome.
\<close>

definition unfinished :: "string \<Rightarrow> QueueService \<Rightarrow> bool" where
  "unfinished i s =
     (\<exists>item. getStatus s i = Some item \<and> retries item = 0 \<and>
        (status item = Pending \<or> status item = Processing))"

text \<open>An id of the shape \<open>generateId\<close> produces, and a request, for the examples below.\<close>

definition sample_id :: string where
  "sample_id = ''1700000000000-k3x9q2m1z''"

definition sample_request :: PostbackRequest where
  "sample_request =
     \<lparr>postbackUrl = ''https://example.test/hook'', payload = [(''k'', ''v'')],
        req_method = None, headers = None\<rparr>"

text \<open>A queue with an old completed item, an old pending item and a recent failed item.\<close>

definition sample_queue :: QueueService where
  "sample_queue = new_service\<lparr>queue :=
     [(''a'', \<lparr>postbackUrl = ''u'', payload = [], req_method = None, headers = None,
               item_id = ''a'', createdAt = 0, status = Completed, retries = 0\<rparr>),
      (''b'', \<lparr>postbackUrl = ''u'', payload = [], req_method = None, headers = None,
               item_id = ''b'', createdAt = 0, status = Pending, retries = 0\<rparr>),
      (''c'', \<lparr>postbackUrl = ''u'', payload = [], req_method = None, headers = None,
               item_id = ''c'', createdAt = 4000000, status = Failed, retries = 3\<rparr>)]\<rparr>"

text \<open>
  A queue map is well formed when its keys are distinct (it is a \<open>Map\<close>) and every item is
  stored under its own id (the only write is \<open>this.queue.set(id, queued)\<close> in \<open>enqueue\<close>).
\<close>

definition queue_wf :: "QueueService \<Rightarrow> bool" where
  "queue_wf s =
     (distinct (map fst (queue s)) \<and> (\<forall>(k, item) \<in> set (queue s). item_id item = k))"

text \<open>
  \<open>fails_for i e\<close>: the event \<open>e\<close> is compatible with a destination of item \<open>i\<close> that fails
  on every attempt, and does not enqueue a second item under the same id.
\<close>

fun fails_for :: "string \<Rightarrow> event \<Rightarrow> bool" where
  "fails_for i (FetchSettled j r now) = (j = i \<longrightarrow> \<not> executePostback r)"
| "fails_for i (Enqueue j now request) = (j \<noteq> i)"
| "fails_for i e = True"

text \<open>
  The bookkeeping of one item whose every attempt fails, after \<open>n\<close> started executions:
  while an execution is in flight the item is \<open>processing\<close> and has \<open>n - 1\<close> retries;
  otherwise it has \<open>n\<close> retries and is \<open>pending\<close> below three and \<open>failed\<close> at three,
  and only a failed item can have been removed.
\<close>

definition attempt_inv :: "string \<Rightarrow> nat \<Rightarrow> QueueService \<Rightarrow> bool" where
  "attempt_inv i n s =
     (queue_wf s \<and> n \<le> 3 \<and>
      (if i \<in> set (in_flight s)
       then (\<exists>item. getStatus s i = Some item \<and> status item = Processing
                \<and> Suc (retries item) = n)
       else (case getStatus s i of
               None \<Rightarrow> n = 3
             | Some item \<Rightarrow>
                 retries item = n \<and> status item = (if n < 3 then Pending else Failed))))"

section \<open>The worker's queue consumer (\<open>queue\<close> handler of the Cloudflare worker)\<close>

text \<open>
  The table \<open>postback_queue\<close> is a map from the primary key to the row; the status column
  holds the texts the handler writes. A delivered message is acknowledged or sent back for
  redelivery.
\<close>

record PostbackRow =
  postback_url :: string
  row_payload :: string
  row_method :: string
  row_headers :: "string option"
  row_status :: string
  created_at :: int
  row_retries :: nat

datatype disposition = Ack | Retry

text \<open>
  The body of the loop over \<open>batch.messages\<close>, for the message with id \<open>i\<close>, where \<open>r\<close> is
  what \<open>fetch\<close> does if it is called. The result is the disposition of the message, whether
  the HTTP call was made, and the table. A rejected \<open>fetch\<close> throws into the \<open>catch\<close>
  block, which only calls \<open>message.retry()\<close>. Database calls are taken to succeed.
\<close>

definition consume ::
  "string \<Rightarrow> fetch_result \<Rightarrow> (string \<rightharpoonup> PostbackRow)
     \<Rightarrow> disposition \<times> bool \<times> (string \<rightharpoonup> PostbackRow)" where
  "consume i r db =
     (case db i of
        None \<Rightarrow> (Ack, False, db)
      | Some row \<Rightarrow>
          if row_status row \<noteq> ''pending'' then (Ack, False, db)
          else
            (let db1 = db(i \<mapsto> row\<lparr>row_status := ''processing''\<rparr>)
             in case r of
                  Rejected \<Rightarrow> (Retry, True, db1)
                | Response code \<Rightarrow>
                    if response_ok code
                    then (Ack, True, db1(i \<mapsto> row\<lparr>row_status := ''completed''\<rparr>))
                    else
                      (let retries = row_retries row + 1
                       in if retries \<ge> 3
                          then (Ack, True,
                                db1(i \<mapsto> row\<lparr>row_status := ''failed'', row_retries := retries\<rparr>))
                          else (Retry, True,
                                db1(i \<mapsto> row\<lparr>row_status := ''pending'', row_retries := retries\<rparr>)))))"

section \<open>Example runs of the postback queue\<close>

text \<open>
  A job is enqueued into a new service. In \<open>failing_trace\<close> its destination answers 500,
  then times out, then answers 503; each retry timer fires when it is due and the pass it
  schedules runs.
\<close>

definition enqueued_service :: QueueService where
  "enqueued_service = snd (enqueue sample_id 1700000000000 sample_request new_service)"

definition failing_trace :: "event list" where
  "failing_trace =
     [RunProcessQueue,
      FetchSettled sample_id (Response 500) 1700000000100,
      TimerFired 1700000001100 sample_id 1700000001100,
      RunProcessQueue,
      FetchSettled sample_id Rejected 1700000031100,
      TimerFired 1700000033100 sample_id 1700000033100,
      RunProcessQueue,
      FetchSettled sample_id (Response 503) 1700000033200]"

text \<open>
  In \<open>early_retry_trace\<close> the first attempt fails 100 ms after the job was enqueued, and a
  second job is enqueued 100 ms later, 900 ms before the retry timer of the first is due.
\<close>

definition other_id :: string where
  "other_id = ''1700000000200-p7w4h0c5d''"

definition early_retry_trace :: "event list" where
  "early_retry_trace =
     [RunProcessQueue,
      FetchSettled sample_id (Response 500) 1700000000100,
      Enqueue other_id 1700000000200 sample_request]"

text \<open>A table with one pending row, for the worker.\<close>

definition sample_row :: PostbackRow where
  "sample_row =
     \<lparr>postback_url = ''https://example.test/hook'', row_payload = ''{}'',
        row_method = ''POST'', row_headers = None, row_status = ''pending'',
        created_at = 1700000000000, row_retries = 0\<rparr>"

section \<open>Strings of the source language\<close>

text \<open>
  Strings are lists of 8-bit characters. \<open>trim\<close> removes white space and line
  terminators from both ends; below code 256 these are tab, line feed, vertical tab, form
  feed, carriage return, space and the no-break space. \<open>substring\<close> is
  \<open>String.prototype.substring\<close> on two indices that are not negative: the smaller index is
  the start, and both are clamped to the length.
\<close>

definition js_whitespace :: "char \<Rightarrow> bool" where
  "js_whitespace c = (of_char c \<in> {9, 10, 11, 12, 13, 32, 160 :: nat})"

definition trim :: "string \<Rightarrow> string" where
  "trim s = rev (dropWhile js_whitespace (rev (dropWhile js_whitespace s)))"

definition substring :: "nat \<Rightarrow> nat \<Rightarrow> string \<Rightarrow> string" where
  "substring a b s = take (max a b - min a b) (drop (min a b) s)"

text \<open>
  An optional string in a condition (\<open>if (body.channel)\<close>) counts as given when it is
  present and not empty. \<open>str\<close> reads the value of an optional string that is given.
\<close>

definition truthy :: "string option \<Rightarrow> bool" where
  "truthy x = (case x of None \<Rightarrow> False | Some s \<Rightarrow> s \<noteq> [])"

definition str :: "string option \<Rightarrow> string" where
  "str x = (case x of None \<Rightarrow> [] | Some s \<Rightarrow> s)"

section \<open>The connection registry (classes SocketService and SocketManager)\<close>

text \<open>
  \<open>interface SocketConnection\<close> of the Node service and \<open>interface ConnectionState\<close> of the
  worker have the same four fields; \<open>socketId\<close> is called \<open>connectionId\<close> in the worker.
\<close>

record Connection =
  socketId :: string
  channel :: string
  userId :: string
  connectedAt :: int

text \<open>
  Both classes keep three maps: \<open>connections\<close>; the channel index (\<open>channelUsers\<close> in the
  Node service, \<open>channelToSockets\<close> in the worker); and the user index (\<open>userSockets\<close>,
  \<open>userToSockets\<close>). The key \<open>'k\<close> of a connection is the socket id (a string) in the
  Node service and the server-side \<open>WebSocket\<close> object in the worker. The index maps hold
  sets of keys.
\<close>

record 'k Registry =
  connections :: "'k \<rightharpoonup> Connection"
  channelIndex :: "string \<rightharpoonup> 'k list"
  userIndex :: "string \<rightharpoonup> 'k list"

definition new_registry :: "'k Registry" where
  "new_registry = \<lparr>connections = Map.empty, channelIndex = Map.empty, userIndex = Map.empty\<rparr>"

text \<open>The members of an index entry; an absent key has none.\<close>

definition members :: "(string \<rightharpoonup> 'k list) \<Rightarrow> string \<Rightarrow> 'k list" where
  "members idx key = (case idx key of None \<Rightarrow> [] | Some s \<Rightarrow> s)"

text \<open>
  \<open>generateChannel\<close> and \<open>generateUserId\<close>. The argument is the text that
  \<open>Math.random().toString(36)\<close> returns: \<open>0.\<close> followed by base-36 digits, or \<open>0\<close> alone.
\<close>

definition generateChannel :: "string \<Rightarrow> string" where
  "generateChannel rnd = ''channel-'' @ substring 2 11 rnd"

definition generateUserId :: "string \<Rightarrow> string" where
  "generateUserId rnd = ''user-'' @ substring 2 11 rnd"

definition base36_digit :: "char \<Rightarrow> bool" where
  "base36_digit c = (c \<in> set ''0123456789abcdefghijklmnopqrstuvwxyz'')"

text \<open>
  A query parameter of the socket.io handshake is absent, one string or an array of
  strings. \<open>first_value\<close> is \<open>Array.isArray(raw) ? raw[0] : raw\<close>; \<open>resolve_name\<close> is the
  rest of the expression, \<open>?.trim?.() || generated\<close>. The worker reads
  \<open>url.searchParams.get\<close>, which is absent or one string.
\<close>

datatype query_value = Absent | Single string | Multi "string list"

definition first_value :: "query_value \<Rightarrow> string option" where
  "first_value raw =
     (case raw of
        Absent \<Rightarrow> None
      | Single s \<Rightarrow> Some s
      | Multi xs \<Rightarrow> (case xs of [] \<Rightarrow> None | x # _ \<Rightarrow> Some x))"

definition resolve_name :: "string option \<Rightarrow> string \<Rightarrow> string" where
  "resolve_name raw generated =
     (case raw of
        None \<Rightarrow> generated
      | Some s \<Rightarrow> if trim s = [] then generated else trim s)"

text \<open>
  The three writes of a registration: \<open>connections.set\<close>, and for each index the
  creation of a missing entry followed by \<open>add\<close>.
\<close>

definition index_add :: "string \<Rightarrow> 'k \<Rightarrow> (string \<rightharpoonup> 'k list) \<Rightarrow> (string \<rightharpoonup> 'k list)" where
  "index_add key k idx =
     (let idx1 = (if idx key = None then idx(key \<mapsto> []) else idx)
      in idx1(key \<mapsto> set_add k (members idx1 key)))"

definition register :: "'k \<Rightarrow> Connection \<Rightarrow> 'k Registry \<Rightarrow> 'k Registry" where
  "register k conn reg =
     reg\<lparr>connections := (connections reg)(k \<mapsto> conn),
         channelIndex := index_add (channel conn) k (channelIndex reg),
         userIndex := index_add (userId conn) k (userIndex reg)\<rparr>"

text \<open>
  \<open>handleConnection\<close> of the Node service. Arguments: the id of the socket, the two query
  parameters, the random texts for the two generators, the clock. Result: the connection
  (also sent to the client in the \<open>connected\<close> event), the socket.io room the socket joins,
  and the registry.
\<close>

definition handleConnection ::
  "string \<Rightarrow> query_value \<Rightarrow> query_value \<Rightarrow> string \<Rightarrow> string \<Rightarrow> int \<Rightarrow> string Registry
     \<Rightarrow> Connection \<times> string \<times> string Registry" where
  "handleConnection sid rawChannel rawUserId rndChannel rndUser now reg =
     (let c = resolve_name (first_value rawChannel) (generateChannel rndChannel);
          u = resolve_name (first_value rawUserId) (generateUserId rndUser);
          connection = \<lparr>socketId = sid, channel = c, userId = u, connectedAt = now\<rparr>
      in (connection, c, register sid connection reg))"

text \<open>
  \<open>handleWebSocket\<close> of the worker. Arguments: the new server-side socket, the two query
  parameters, the random texts, the UUID for the connection id, the clock.
\<close>

definition handleWebSocket ::
  "'k \<Rightarrow> string option \<Rightarrow> string option \<Rightarrow> string \<Rightarrow> string \<Rightarrow> string \<Rightarrow> int
     \<Rightarrow> 'k Registry \<Rightarrow> Connection \<times> 'k Registry" where
  "handleWebSocket server rawChannel rawUserId rndChannel rndUser uuid now reg =
     (let c = resolve_name (Some (str rawChannel)) (generateChannel rndChannel);
          u = resolve_name (Some (str rawUserId)) (generateUserId rndUser);
          state = \<lparr>socketId = uuid, channel = c, userId = u, connectedAt = now\<rparr>
      in (state, register server state reg))"

text \<open>
  Removal. \<open>index_remove\<close> is the pruning of one index: when the entry exists the key is
  deleted from its set, and when the set is then empty the entry is deleted.
  \<open>handleDisconnection\<close> (Node) prunes the indexes and then deletes the connection;
  \<open>removeConnection\<close> (worker) deletes the connection first. Both return at once for an
  unknown key.
\<close>

definition index_remove :: "string \<Rightarrow> 'k \<Rightarrow> (string \<rightharpoonup> 'k list) \<Rightarrow> (string \<rightharpoonup> 'k list)" where
  "index_remove key k idx =
     (case idx key of
        None \<Rightarrow> idx
      | Some s \<Rightarrow> if set_delete k s = [] then idx(key := None) else idx(key \<mapsto> set_delete k s))"

definition handleDisconnection :: "'k \<Rightarrow> 'k Registry \<Rightarrow> 'k Registry" where
  "handleDisconnection k reg =
     (case connections reg k of
        None \<Rightarrow> reg
      | Some connection \<Rightarrow>
          (let reg1 = reg\<lparr>channelIndex := index_remove (channel connection) k (channelIndex reg)\<rparr>;
               reg2 = reg1\<lparr>userIndex := index_remove (userId connection) k (userIndex reg1)\<rparr>
           in reg2\<lparr>connections := (connections reg2)(k := None)\<rparr>))"

definition removeConnection :: "'k \<Rightarrow> 'k Registry \<Rightarrow> 'k Registry" where
  "removeConnection ws reg =
     (case connections reg ws of
        None \<Rightarrow> reg
      | Some state \<Rightarrow>
          (let reg1 = reg\<lparr>connections := (connections reg)(ws := None)\<rparr>;
               reg2 = reg1\<lparr>channelIndex := index_remove (channel state) ws (channelIndex reg1)\<rparr>
           in reg2\<lparr>userIndex := index_remove (userId state) ws (userIndex reg2)\<rparr>))"

text \<open>
  \<open>getChannelStats\<close> (Node) and \<open>handleChannelStats\<close> (worker) are the same computation:
  the size of the channel's set, and the size of the set of user ids collected from those
  of its members that are still in \<open>connections\<close>.
\<close>

record ChannelStats =
  userCount :: nat
  socketCount :: nat

definition getChannelStats :: "'k Registry \<Rightarrow> string \<Rightarrow> ChannelStats" where
  "getChannelStats reg c =
     (let sockets = channelIndex reg c;
          count = (case sockets of None \<Rightarrow> 0 | Some s \<Rightarrow> length s);
          users = fold (\<lambda>k users. case connections reg k of
                                     None \<Rightarrow> users
                                   | Some conn \<Rightarrow> set_add (userId conn) users)
                    (case sockets of None \<Rightarrow> [] | Some s \<Rightarrow> s) []
      in \<lparr>userCount = length users, socketCount = count\<rparr>)"

definition handleChannelStats :: "'k Registry \<Rightarrow> string \<Rightarrow> ChannelStats" where
  "handleChannelStats reg c = getChannelStats reg c"

text \<open>
  The invariant the registry operations maintain: every connection is a member of the index
  entries of its own channel and user; every member of an index entry is a connection
  whose channel (user) is the key of that entry; and every stored set is non-empty and, as a
  set, free of duplicates.
\<close>

definition registry_inv :: "'k Registry \<Rightarrow> bool" where
  "registry_inv reg =
     ((\<forall>k conn. connections reg k = Some conn \<longrightarrow>
          k \<in> set (members (channelIndex reg) (channel conn))
        \<and> k \<in> set (members (userIndex reg) (userId conn)))
    \<and> (\<forall>c k. k \<in> set (members (channelIndex reg) c) \<longrightarrow>
          (\<exists>conn. connections reg k = Some conn \<and> channel conn = c))
    \<and> (\<forall>u k. k \<in> set (members (userIndex reg) u) \<longrightarrow>
          (\<exists>conn. connections reg k = Some conn \<and> userId conn = u))
    \<and> (\<forall>c s. channelIndex reg c = Some s \<longrightarrow> s \<noteq> [] \<and> distinct s)
    \<and> (\<forall>u s. userIndex reg u = Some s \<longrightarrow> s \<noteq> [] \<and> distinct s))"

text \<open>
  The registry property in the words of the specification: every id of the primary table
  is in exactly one channel entry and in exactly one user entry; every id in an index
  entry is in the primary table; and an index key exists exactly when its set is not empty.
\<close>

definition registry_consistent :: "'k Registry \<Rightarrow> bool" where
  "registry_consistent reg =
     ((\<forall>k \<in> dom (connections reg).
          (\<exists>!c. k \<in> set (members (channelIndex reg) c))
        \<and> (\<exists>!u. k \<in> set (members (userIndex reg) u)))
    \<and> (\<forall>c k. k \<in> set (members (channelIndex reg) c) \<longrightarrow> k \<in> dom (connections reg))
    \<and> (\<forall>u k. k \<in> set (members (userIndex reg) u) \<longrightarrow> k \<in> dom (connections reg))
    \<and> (\<forall>c. channelIndex reg c \<noteq> None \<longleftrightarrow> members (channelIndex reg) c \<noteq> [])
    \<and> (\<forall>u. userIndex reg u \<noteq> None \<longleftrightarrow> members (userIndex reg) u \<noteq> []))"

text \<open>
  The registries each class can reach: it starts empty, registers connections under new
  keys (socket.io gives every socket its own id, and the worker creates a new \<open>WebSocket\<close>
  pair for every upgrade) and removes connections.
\<close>

inductive node_reachable :: "string Registry \<Rightarrow> bool" where
  node_new: "node_reachable new_registry"
| node_connect:
    "node_reachable reg \<Longrightarrow> connections reg sid = None \<Longrightarrow>
     node_reachable (snd (snd (handleConnection sid rawChannel rawUserId rndChannel rndUser now reg)))"
| node_disconnect: "node_reachable reg \<Longrightarrow> node_reachable (handleDisconnection sid reg)"

inductive worker_reachable :: "'k Registry \<Rightarrow> bool" where
  worker_new: "worker_reachable new_registry"
| worker_connect:
    "worker_reachable reg \<Longrightarrow> connections reg server = None \<Longrightarrow>
     worker_reachable
       (snd (handleWebSocket server rawChannel rawUserId rndChannel rndUser uuid now reg))"
| worker_remove: "worker_reachable reg \<Longrightarrow> worker_reachable (removeConnection ws reg)"

text \<open>Example registries.\<close>

definition sample_registry :: "string Registry" where
  "sample_registry =
     snd (snd (handleConnection ''Zx3kQ9'' (Single '' news '') (Multi [''alice'', ''bob''])
       ''0.4fzyo82mvyr'' ''0.8dk2lq0xw1c'' 1700000000000 new_registry))"

definition sample_worker_registry :: "nat Registry" where
  "sample_worker_registry =
     snd (handleWebSocket 2 (Some ''sports'') (Some ''alice'') ''0.4fzyo82mvyr''
            ''0.8dk2lq0xw1c'' ''9f1c2a4e-0001'' 1700000000500
       (snd (handleWebSocket 1 (Some ''news'') (Some ''alice'') ''0.4fzyo82mvyr''
               ''0.8dk2lq0xw1c'' ''9f1c2a4e-0000'' 1700000000000 new_registry)))"

text \<open>
  The schedule on which nothing delays a job whose three HTTP calls settle with \<open>r1\<close>,
  \<open>r2\<close>, \<open>r3\<close> at the times \<open>t1\<close>, \<open>t2\<close>, \<open>t3\<close>: the scheduled pass runs, the call
  settles, the retry timer set at the failure fires (at \<open>f1\<close>, \<open>f2\<close>), and the pass it
  schedules runs.
\<close>

definition retry_schedule ::
  "string \<Rightarrow> fetch_result \<Rightarrow> int \<Rightarrow> int \<Rightarrow> fetch_result \<Rightarrow> int \<Rightarrow> int \<Rightarrow> fetch_result \<Rightarrow> int
     \<Rightarrow> event list" where
  "retry_schedule i r1 t1 f1 r2 t2 f2 r3 t3 =
     [RunProcessQueue, FetchSettled i r1 t1, TimerFired (t1 + RETRY_DELAY * 1) i f1,
      RunProcessQueue, FetchSettled i r2 t2, TimerFired (t2 + RETRY_DELAY * 2) i f2,
      RunProcessQueue, FetchSettled i r3 t3]"

section \<open>Dispatch\<close>


subsection \<open>The Node service (SocketService and its route)\<close>








subsection \<open>The worker (SocketManager.handleDispatch and its route)\<close>





text \<open>\<open>blank raw\<close>: a query parameter is absent, or empty after trimming.\<close>

definition blank :: "string option \<Rightarrow> bool" where
  "blank raw = (case raw of None \<Rightarrow> True | Some s \<Rightarrow> trim s = [])"






section \<open>Properties of the postback queue\<close>

subsection \<open>Helper lemmas on the queue map\<close>

lemma fold_delete_filter: "fold AList.delete ks q = filter (\<lambda>(k, v). k \<notin> set ks) q"
proof (induction ks arbitrary: q)
  case Nil show ?case by simp
next
  case (Cons k ks)
  have d: "AList.delete k q = filter (\<lambda>(k', v). k \<noteq> k') q"
    by (simp add: AList.delete_eq)
  have "filter (\<lambda>(k', v). k' \<notin> set ks) (filter (\<lambda>(k', v). k \<noteq> k') q)
      = filter (\<lambda>(k', v). k' \<notin> set (k # ks)) q"
    by (induction q) auto
  with Cons.IH[of "AList.delete k q"] d show ?case by simp
qed

lemma keys_of_filter:
  assumes "distinct (map fst q)" "(k, v) \<in> set q"
  shows "k \<in> fst ` set (filter P q) \<longleftrightarrow> P (k, v)"
proof
  assume "k \<in> fst ` set (filter P q)"
  then obtain v' where v': "(k, v') \<in> set q" "P (k, v')" by auto
  from assms(1) v'(1) assms(2) have "v' = v" by (rule eq_key_imp_eq_value)
  with v' show "P (k, v)" by simp
next
  assume "P (k, v)"
  with assms(2) have "(k, v) \<in> set (filter P q)" by simp
  then show "k \<in> fst ` set (filter P q)" by (rule image_eqI[rotated]) simp
qed

lemma cleanup_queue:
  assumes "distinct (map fst (queue s))"
  shows "queue (cleanup now olderThanMs s) =
     filter (\<lambda>(i, item). \<not> ((status item = Completed \<or> status item = Failed)
                                      \<and> now - createdAt item > olderThanMs)) (queue s)"
proof -
  let ?old = "\<lambda>(i::string, item). (status item = Completed \<or> status item = Failed)
                                      \<and> now - createdAt item > olderThanMs"
  have k: "(fst x \<notin> fst ` set (filter ?old (queue s))) = (\<not> ?old x)"
    if "x \<in> set (queue s)" for x
    using keys_of_filter[OF assms, of "fst x" "snd x" ?old] that by simp
  have "queue (cleanup now olderThanMs s)
      = filter (\<lambda>x. fst x \<notin> fst ` set (filter ?old (queue s))) (queue s)"
    by (simp add: cleanup_def Let_def fold_delete_filter case_prod_unfold)
  also have "\<dots> = filter (\<lambda>x. \<not> ?old x) (queue s)"
    using k by (intro filter_cong[OF refl]) blast
  finally show ?thesis by (simp add: case_prod_unfold)
qed

lemma queue_fold_begin:
  "queue (fold processPostback_begin ids s) =
     fold (\<lambda>i. AList.map_entry i (\<lambda>item. item\<lparr>status := Processing\<rparr>)) ids (queue s)"
  by (induction ids arbitrary: s) (simp_all add: processPostback_begin_def)

lemma keys_fold_map_entry:
  "map fst (fold (\<lambda>i. AList.map_entry i (f i)) ids q) = map fst q"
proof (induction ids arbitrary: q)
  case Nil show ?case by simp
next
  case (Cons i ids)
  have "map fst (AList.map_entry i (f i) q) = map fst q" for q :: "('a \<times> 'b) list"
    by (induction q) auto
  then show ?case by (simp add: Cons.IH)
qed

lemma keys_processQueue_begin: "map fst (queue (processQueue_begin s)) = map fst (queue s)"
  by (simp add: processQueue_begin_def queue_fold_begin keys_fold_map_entry)

lemma queue_allSettled: "queue (allSettled i s) = queue s"
proof -
  have "queue ((processQueue_settled True ^^ n) s) = queue s" for n
    by (induction n) (simp_all add: processQueue_settled_def)
  then show ?thesis by (simp add: allSettled_def case_prod_unfold Let_def)
qed

lemma distinct_settle:
  "distinct (map fst (queue s)) \<Longrightarrow> distinct (map fst (queue (processPostback_settle i r now s)))"
  by (simp add: processPostback_settle_def Let_def distinct_update split: option.splits)

lemma distinct_cleanup:
  "distinct (map fst (queue s)) \<Longrightarrow> distinct (map fst (queue (cleanup now m s)))"
  by (simp add: cleanup_def Let_def fold_delete_filter distinct_map_filter)

lemma distinct_step:
  "distinct (map fst (queue s)) \<Longrightarrow> distinct (map fst (queue (step e s)))"
  by (cases e)
     (simp_all add: enqueue_def distinct_update keys_processQueue_begin queue_allSettled
        distinct_settle distinct_cleanup retry_timer_callback_def)

lemma map_of_fold_begin:
  "map_of (fold (\<lambda>i. AList.map_entry i (\<lambda>item. item\<lparr>status := Processing\<rparr>)) ids q) k =
     (if k \<in> set ids then map_option (\<lambda>item. item\<lparr>status := Processing\<rparr>) (map_of q k)
      else map_of q k)"
proof (induction ids arbitrary: q)
  case Nil show ?case by simp
next
  case (Cons i ids)
  show ?case
    by (cases "map_of q k") (auto simp add: Cons.IH map_of_map_entry)
qed

lemma map_of_cleanup:
  assumes "distinct (map fst (queue s))" "map_of (queue s) i = Some item"
    "status item = Pending \<or> status item = Processing"
  shows "map_of (queue (cleanup now m s)) i = Some item"
proof -
  from assms(2) have "(i, item) \<in> set (queue s)" by (rule map_of_SomeD)
  with assms(3) have "(i, item) \<in> set (queue (cleanup now m s))"
    by (auto simp: cleanup_queue[OF assms(1)])
  with distinct_cleanup[OF assms(1)] show ?thesis by simp
qed

subsection \<open>Effect of each callback on one item\<close>

lemma getStatus_cleanup:
  assumes "distinct (map fst (queue s))" "getStatus s i = Some item"
  shows "getStatus (cleanup now maxAge s) i =
          (if (status item = Completed \<or> status item = Failed) \<and> now - createdAt item > maxAge
           then None else Some item)"
proof -
  let ?old = "\<lambda>item. (status item = Completed \<or> status item = Failed)
                                    \<and> now - createdAt item > maxAge"
  have q: "queue (cleanup now maxAge s) = filter (\<lambda>(i, item). \<not> ?old item) (queue s)"
    by (rule cleanup_queue[OF assms(1)])
  have d: "distinct (map fst (queue (cleanup now maxAge s)))"
    by (rule distinct_cleanup[OF assms(1)])
  from assms(2) have m: "(i, item) \<in> set (queue s)"
    by (auto simp: getStatus_def dest: map_of_SomeD)
  show ?thesis
  proof (cases "?old item")
    case False
    with m have "(i, item) \<in> set (queue (cleanup now maxAge s))" by (auto simp: q)
    with d False show ?thesis by (simp add: getStatus_def)
  next
    case True
    have "i \<notin> fst ` set (queue (cleanup now maxAge s))"
    proof
      assume "i \<in> fst ` set (queue (cleanup now maxAge s))"
      then obtain item' where i': "(i, item') \<in> set (queue s)" "\<not> ?old item'"
        by (auto simp: q)
      from assms(1) i'(1) m have "item' = item" by (rule eq_key_imp_eq_value)
      with i' True show False by simp
    qed
    then have "map_of (queue (cleanup now maxAge s)) i = None"
      by (simp add: map_of_eq_None_iff)
    with True show ?thesis by (simp add: getStatus_def)
  qed
qed

lemma getStatus_cleanup_None:
  "getStatus s i = None \<Longrightarrow> getStatus (cleanup now maxAge s) i = None"
  by (auto simp: getStatus_def cleanup_def Let_def fold_delete_filter map_of_eq_None_iff)

lemma batches_fold_begin: "batches (fold processPostback_begin ids s) = batches s"
  by (induction ids arbitrary: s) (simp_all add: processPostback_begin_def)

lemma in_flight_begin:
  "in_flight (processQueue_begin s) =
     (if pending_items s = [] then in_flight s else in_flight s @ toProcess s)"
  by (simp add: processQueue_begin_def in_flight_def batches_fold_begin)

lemma toProcess_pending:
  assumes "queue_wf s" "i \<in> set (toProcess s)"
  shows "\<exists>item. getStatus s i = Some item \<and> status item = Pending"
proof -
  from assms(2) obtain item where it: "item \<in> set (take concurrentLimit (pending_items s))"
      "item_id item = i"
    by (auto simp: toProcess_def)
  from it(1) have "item \<in> set (pending_items s)" by (rule in_set_takeD)
  then have p: "item \<in> snd ` set (queue s)" "status item = Pending"
    by (auto simp: pending_items_def)
  then obtain k where k: "(k, item) \<in> set (queue s)" by auto
  with assms(1) it(2) have "k = i" by (auto simp: queue_wf_def)
  with k assms(1) have "map_of (queue s) i = Some item" by (simp add: queue_wf_def)
  with p(2) show ?thesis by (simp add: getStatus_def)
qed

lemma toProcess_Nil: "pending_items s = [] \<Longrightarrow> toProcess s = []"
  by (simp add: toProcess_def)

lemma getStatus_begin:
  "getStatus (processQueue_begin s) k =
     (if k \<in> set (toProcess s) then map_option (\<lambda>item. item\<lparr>status := Processing\<rparr>) (getStatus s k)
      else getStatus s k)"
  by (simp add: getStatus_def processQueue_begin_def queue_fold_begin map_of_fold_begin
      toProcess_Nil)

lemma set_settle_batches:
  "set (concat (map fst (fst (settle_batches i bs)))) = set (concat (map fst bs)) - {i}"
proof (induction bs)
  case Nil show ?case by simp
next
  case (Cons b bs)
  obtain ids again where b: "b = (ids, again)" by (cases b)
  have r: "set (removeAll i ids) = set ids - {i}" by simp
  show ?case
  proof (cases "i \<in> set ids")
    case False
    with Cons.IH show ?thesis
      by (simp add: b case_prod_unfold Let_def Un_Diff)
  next
    case True
    show ?thesis
    proof (cases "removeAll i ids = []")
      case True
      with r have "set ids - {i} = {}" by simp
      then have "(set ids \<union> set (concat (map fst bs))) - {i} = set (concat (map fst bs)) - {i}"
        by blast
      with \<open>i \<in> set ids\<close> True Cons.IH show ?thesis
        by (simp add: b case_prod_unfold Let_def)
    next
      case False
      with \<open>i \<in> set ids\<close> Cons.IH show ?thesis
        by (simp add: b case_prod_unfold Let_def Un_Diff)
    qed
  qed
qed

lemma batches_allSettled: "batches (allSettled i s) = fst (settle_batches i (batches s))"
  by (simp add: allSettled_def case_prod_unfold Let_def)

lemma in_flight_allSettled: "set (in_flight (allSettled i s)) = set (in_flight s) - {i}"
  using set_settle_batches[of i "batches s"] by (simp add: in_flight_def batches_allSettled)

lemma in_flight_settle: "in_flight (processPostback_settle j r now s) = in_flight s"
  by (simp add: in_flight_def processPostback_settle_def Let_def split: option.splits)

lemma getStatus_allSettled: "getStatus (allSettled i s) k = getStatus s k"
  by (simp add: getStatus_def queue_allSettled)

lemma getStatus_settle_other:
  "j \<noteq> k \<Longrightarrow> getStatus (processPostback_settle j r now s) k = getStatus s k"
  by (simp add: getStatus_def processPostback_settle_def Let_def update_conv' split: option.splits)

lemma getStatus_settle_fail:
  assumes "getStatus s i = Some item" "\<not> executePostback r"
  shows "getStatus (processPostback_settle i r now s) i =
     Some (item\<lparr>retries := Suc (retries item),
                 status := (if Suc (retries item) < 3 then Pending else Failed)\<rparr>)"
  using assms
  by (simp add: getStatus_def processPostback_settle_def Let_def update_conv' MAX_RETRIES_def)

lemma wf_map_entry:
  assumes "distinct (map fst q)" "\<forall>(k, item) \<in> set q. item_id item = k"
  shows "\<forall>(k, item) \<in> set (AList.map_entry i (\<lambda>item. item\<lparr>status := st\<rparr>) q). item_id item = k"
  using assms by (induction q) auto

lemma wf_fold_map_entry:
  assumes "\<forall>(k, item) \<in> set q. item_id item = k"
  shows "\<forall>(k, item) \<in> set (fold (\<lambda>i. AList.map_entry i (\<lambda>item. item\<lparr>status := Processing\<rparr>)) ids q).
           item_id item = k"
  using assms
proof (induction ids arbitrary: q)
  case Nil then show ?case by simp
next
  case (Cons i ids)
  have "\<forall>(k, item) \<in> set (AList.map_entry i (\<lambda>item. item\<lparr>status := Processing\<rparr>) q). item_id item = k"
    using Cons.prems by (induction q) auto
  then show ?case by (simp add: Cons.IH)
qed

lemma wf_update:
  assumes "\<forall>(k, item) \<in> set q. item_id item = k" "item_id v = i"
  shows "\<forall>(k, item) \<in> set (AList.update i v q). item_id item = k"
  using assms by (induction q) auto

lemma queue_wf_step: "queue_wf s \<Longrightarrow> queue_wf (step e s)"
proof (cases e)
  case (Enqueue j now req)
  assume w: "queue_wf s"
  let ?v = "\<lparr>postbackUrl = postbackUrl req, payload = payload req,
                     req_method = req_method req, headers = headers req,
                     item_id = j, createdAt = now, status = Pending, retries = 0\<rparr>"
  from w have "\<forall>(k, item) \<in> set (AList.update j ?v (queue s)). item_id item = k"
    by (intro wf_update) (simp_all add: queue_wf_def)
  with w show ?thesis unfolding Enqueue
    by (simp add: queue_wf_def enqueue_def distinct_update)
next
  case RunProcessQueue
  assume w: "queue_wf s"
  have "queue_wf (processQueue_begin t)" if "queue_wf t" for t
  proof -
    from that have "\<forall>(k, item) \<in> set (fold (\<lambda>i. AList.map_entry i
        (\<lambda>item. item\<lparr>status := Processing\<rparr>)) (toProcess t) (queue t)). item_id item = k"
      by (intro wf_fold_map_entry) (simp add: queue_wf_def)
    with that show ?thesis
      by (simp add: queue_wf_def keys_processQueue_begin)
         (simp add: processQueue_begin_def queue_fold_begin)
  qed
  from this[of "s\<lparr>immediates := immediates s - 1\<rparr>"] w show ?thesis unfolding RunProcessQueue
    by (simp add: queue_wf_def)
next
  case (FetchSettled j r now)
  assume w: "queue_wf s"
  have "queue_wf (processPostback_settle j r now s)"
  proof (cases "map_of (queue s) j")
    case None
    with w show ?thesis by (simp add: queue_wf_def processPostback_settle_def)
  next
    case (Some item)
    then have "(j, item) \<in> set (queue s)" by (rule map_of_SomeD)
    with w have "item_id item = j" by (auto simp: queue_wf_def)
    with w have u: "\<forall>(k, x) \<in> set (AList.update j (f item) (queue s)). item_id x = k"
      if "item_id (f item) = item_id item" for f
      using that by (intro wf_update) (simp_all add: queue_wf_def)
    from w Some u[of "\<lambda>x. x\<lparr>status := Completed\<rparr>"]
      u[of "\<lambda>x. x\<lparr>retries := retries x + 1, status := Pending\<rparr>"]
      u[of "\<lambda>x. x\<lparr>retries := retries x + 1, status := Failed\<rparr>"]
    show ?thesis
      by (simp add: queue_wf_def processPostback_settle_def Let_def distinct_update)
  qed
  then show ?thesis using w unfolding FetchSettled
    by (simp add: queue_wf_def queue_allSettled)
next
  case (TimerFired due j now)
  assume "queue_wf s"
  then show ?thesis unfolding TimerFired by (simp add: queue_wf_def retry_timer_callback_def)
next
  case (Cleanup now m)
  assume w: "queue_wf s"
  then have d: "distinct (map fst (queue s))" by (simp add: queue_wf_def)
  from w have "\<forall>(k, item) \<in> set (queue (cleanup now m s)). item_id item = k"
    by (auto simp: queue_wf_def cleanup_queue[OF d])
  with distinct_cleanup[OF d] show ?thesis unfolding Cleanup
    by (simp add: queue_wf_def)
qed

lemma attempt_inv_cong:
  assumes "attempt_inv i n s" "queue_wf s'"
    "(i \<in> set (in_flight s')) = (i \<in> set (in_flight s))" "getStatus s' i = getStatus s i"
  shows "attempt_inv i n s'"
  using assms by (simp add: attempt_inv_def)

lemma toProcess_immediates [simp]: "toProcess (s\<lparr>immediates := m\<rparr>) = toProcess s"
  by (simp add: toProcess_def pending_items_def)

lemma attempt_inv_begin:
  assumes "attempt_inv i n s"
  shows "attempt_inv i (n + (if i \<in> set (toProcess s) then 1 else 0)) (processQueue_begin s)"
proof -
  from assms have w: "queue_wf s" by (simp add: attempt_inv_def)
  have w': "queue_wf (processQueue_begin s)"
  proof -
    from w have "\<forall>(k, item) \<in> set (fold (\<lambda>i. AList.map_entry i
        (\<lambda>item. item\<lparr>status := Processing\<rparr>)) (toProcess s) (queue s)). item_id item = k"
      by (intro wf_fold_map_entry) (simp add: queue_wf_def)
    with w show ?thesis
      by (simp add: queue_wf_def keys_processQueue_begin)
         (simp add: processQueue_begin_def queue_fold_begin)
  qed
  show ?thesis
  proof (cases "i \<in> set (toProcess s)")
    case False
    then have "(i \<in> set (in_flight (processQueue_begin s))) = (i \<in> set (in_flight s))"
      by (simp add: in_flight_begin)
    moreover from False have "getStatus (processQueue_begin s) i = getStatus s i"
      by (simp add: getStatus_begin)
    ultimately show ?thesis using assms w' False by (simp add: attempt_inv_cong)
  next
    case True
    from toProcess_pending[OF w True] obtain item where
      item: "getStatus s i = Some item" "status item = Pending" by blast
    with assms have nf: "i \<notin> set (in_flight s)" and r: "retries item = n" and n: "n < 3"
      by (auto simp: attempt_inv_def split: if_splits)
    from True have "pending_items s \<noteq> []" by (auto simp: toProcess_def)
    with True have inf: "i \<in> set (in_flight (processQueue_begin s))"
      by (simp add: in_flight_begin)
    from True item have "getStatus (processQueue_begin s) i = Some (item\<lparr>status := Processing\<rparr>)"
      by (simp add: getStatus_begin)
    with inf r n w' True show ?thesis by (simp add: attempt_inv_def)
  qed
qed

lemma attempt_inv_step:
  assumes "attempt_inv i n s" "fails_for i e"
  shows "attempt_inv i
     (n + (if e = RunProcessQueue \<and> immediates s \<noteq> 0 \<and> i \<in> set (toProcess s) then 1 else 0))
     (step e s)"
proof -
  from assms(1) have w: "queue_wf s" by (simp add: attempt_inv_def)
  have w': "queue_wf (step e s)" using w by (rule queue_wf_step)
  show ?thesis
  proof (cases e)
    case (Enqueue j now req)
    with assms(2) have "j \<noteq> i" by simp
    then have "getStatus (step e s) i = getStatus s i"
      by (simp add: Enqueue getStatus_def enqueue_def update_conv')
    moreover have "in_flight (step e s) = in_flight s"
      by (simp add: Enqueue in_flight_def enqueue_def)
    ultimately show ?thesis using assms(1) w' Enqueue by (simp add: attempt_inv_cong)
  next
    case RunProcessQueue
    show ?thesis
    proof (cases "immediates s = 0")
      case True
      with assms(1) RunProcessQueue show ?thesis by simp
    next
      case False
      let ?s0 = "s\<lparr>immediates := immediates s - 1\<rparr>"
      have "queue_wf ?s0" "in_flight ?s0 = in_flight s" "getStatus ?s0 i = getStatus s i"
        using w by (simp_all add: queue_wf_def in_flight_def getStatus_def)
      with assms(1) have "attempt_inv i n ?s0" by (simp add: attempt_inv_cong)
      from attempt_inv_begin[OF this] False RunProcessQueue show ?thesis by simp
    qed
  next
    case (FetchSettled j r now)
    show ?thesis
    proof (cases "j \<in> set (in_flight s)")
      case False
      with assms(1) FetchSettled show ?thesis by simp
    next
      case inf: True
      let ?s1 = "processPostback_settle j r now s"
      have st: "step e s = allSettled j ?s1" using inf FetchSettled by simp
      have fl: "set (in_flight (step e s)) = set (in_flight s) - {j}"
        by (simp add: st in_flight_allSettled in_flight_settle)
      show ?thesis
      proof (cases "j = i")
        case False
        then have "getStatus (step e s) i = getStatus s i"
          by (simp add: st getStatus_allSettled getStatus_settle_other)
        moreover from False fl have "(i \<in> set (in_flight (step e s))) = (i \<in> set (in_flight s))"
          by auto
        ultimately show ?thesis using assms(1) w' FetchSettled by (simp add: attempt_inv_cong)
      next
        case True
        with assms(2) FetchSettled have nok: "\<not> executePostback r" by simp
        from inf True assms(1) obtain item where
          item: "getStatus s i = Some item" "status item = Processing" "Suc (retries item) = n"
          and n: "n \<le> 3"
          by (auto simp: attempt_inv_def)
        from getStatus_settle_fail[OF item(1) nok, of now] True
        have g: "getStatus (step e s) i = Some (item\<lparr>retries := Suc (retries item),
                 status := (if Suc (retries item) < 3 then Pending else Failed)\<rparr>)"
          by (simp add: st getStatus_allSettled)
        from fl True have "i \<notin> set (in_flight (step e s))" by simp
        with g item(3) n w' FetchSettled show ?thesis by (simp add: attempt_inv_def)
      qed
    qed
  next
    case (TimerFired due j now)
    have "getStatus (step e s) i = getStatus s i" "in_flight (step e s) = in_flight s"
      by (simp_all add: TimerFired getStatus_def in_flight_def retry_timer_callback_def)
    then show ?thesis using assms(1) w' TimerFired by (simp add: attempt_inv_cong)
  next
    case (Cleanup now m)
    from w have d: "distinct (map fst (queue s))" by (simp add: queue_wf_def)
    have fl: "in_flight (step e s) = in_flight s"
      by (simp add: Cleanup in_flight_def cleanup_def Let_def)
    show ?thesis
    proof (cases "getStatus s i")
      case None
      then have "getStatus (step e s) i = None" by (simp add: Cleanup getStatus_cleanup_None)
      with None fl assms(1) w' Cleanup show ?thesis by (simp add: attempt_inv_cong)
    next
      case (Some item)
      note g = getStatus_cleanup[OF d Some, of now m]
      show ?thesis
      proof (cases "(status item = Completed \<or> status item = Failed) \<and> now - createdAt item > m")
        case False
        with g Some have "getStatus (step e s) i = getStatus s i" by (simp add: Cleanup)
        with fl assms(1) w' Cleanup show ?thesis by (simp add: attempt_inv_cong)
      next
        case True
        with g have g': "getStatus (step e s) i = None" by (simp add: Cleanup)
        from True Some assms(1) have "i \<notin> set (in_flight s)" "n = 3"
          by (auto simp: attempt_inv_def split: if_splits)
        with g' fl w' Cleanup show ?thesis by (simp add: attempt_inv_def)
      qed
    qed
  qed
qed

lemma attempt_inv_run:
  assumes "attempt_inv i n s" "list_all (fails_for i) es"
  shows "attempt_inv i (n + executions i es s) (run es s)"
  using assms
proof (induction es arbitrary: n s)
  case Nil then show ?case by simp
next
  case (Cons e es)
  from Cons.prems have "attempt_inv i
     (n + (if e = RunProcessQueue \<and> immediates s \<noteq> 0 \<and> i \<in> set (toProcess s) then 1 else 0))
     (step e s)"
    by (intro attempt_inv_step) simp_all
  from Cons.IH[OF this] Cons.prems(2) show ?case by (simp add: add.assoc)
qed

lemma attempt_inv_enqueue:
  assumes "queue_wf s" "i \<notin> set (in_flight s)"
  shows "attempt_inv i 0 (snd (enqueue i now request s))"
proof -
  have "queue_wf (step (Enqueue i now request) s)" using assms(1) by (rule queue_wf_step)
  then show ?thesis using assms(2)
    by (simp add: attempt_inv_def getStatus_def in_flight_def enqueue_def update_conv')
qed

subsection \<open>No job finishes before its HTTP call settles\<close>

lemma unfinished_begin: "unfinished i s \<Longrightarrow> unfinished i (processQueue_begin s)"
  by (auto simp: unfinished_def getStatus_def processQueue_begin_def queue_fold_begin
      map_of_fold_begin)

lemma unfinished_settle_other:
  "j \<noteq> i \<Longrightarrow> unfinished i s \<Longrightarrow> unfinished i (processPostback_settle j r now s)"
  by (auto simp: unfinished_def getStatus_def processPostback_settle_def Let_def update_conv'
      split: option.splits)

lemma unfinished_step:
  assumes "distinct (map fst (queue s))" "unfinished i s" "\<forall>r t. e \<noteq> FetchSettled i r t"
  shows "unfinished i (step e s)"
proof (cases e)
  case (Enqueue j now req)
  with assms(2) show ?thesis
    by (auto simp: unfinished_def getStatus_def enqueue_def update_conv')
next
  case RunProcessQueue
  have "unfinished i (s\<lparr>immediates := immediates s - 1\<rparr>)"
    using assms(2) by (simp add: unfinished_def getStatus_def)
  with RunProcessQueue assms(2) show ?thesis by (simp add: unfinished_begin)
next
  case (FetchSettled j r now)
  with assms(3) have "j \<noteq> i" by auto
  from unfinished_settle_other[OF this assms(2)] FetchSettled assms(2) show ?thesis
    by (simp add: unfinished_def getStatus_def queue_allSettled)
next
  case (TimerFired due j now)
  with assms(2) show ?thesis
    by (simp add: unfinished_def getStatus_def retry_timer_callback_def)
next
  case (Cleanup now m)
  with assms(1,2) show ?thesis
    by (auto simp: unfinished_def getStatus_def map_of_cleanup)
qed

lemma unfinished_run:
  assumes "distinct (map fst (queue s))" "unfinished i s" "\<forall>r t. FetchSettled i r t \<notin> set es"
  shows "unfinished i (run es s)"
  using assms
proof (induction es arbitrary: s)
  case Nil then show ?case by simp
next
  case (Cons e es)
  have "unfinished i (step e s)"
    using Cons.prems by (intro unfinished_step) auto
  moreover have "distinct (map fst (queue (step e s)))"
    using Cons.prems(1) by (rule distinct_step)
  ultimately show ?case using Cons.prems(3) by (simp add: Cons.IH)
qed

text \<open>
  Claim C8. A call of \<open>enqueue\<close> always returns, with the generated id, and the item stored
  under that id has status \<open>pending\<close> and \<open>retries = 0\<close>. Whatever callbacks run afterwards
  (scheduling passes, other enqueues, timers, settlements of other jobs, cleanup), as long
  as the HTTP call of this job has not settled, a status query for the id finds the item
  with status \<open>pending\<close> or \<open>processing\<close>, never \<open>completed\<close> or \<open>failed\<close>. The keys of the
  queue map are distinct, as in every \<open>Map\<close>.
\<close>

theorem enqueue_pending_until_settled:
  assumes "distinct (map fst (queue s))"
  shows "fst (enqueue newId now request s) = newId
       \<and> (\<exists>item. getStatus (snd (enqueue newId now request s)) newId = Some item
             \<and> item_id item = newId \<and> status item = Pending \<and> retries item = 0)
       \<and> (\<forall>es. (\<forall>r t. FetchSettled newId r t \<notin> set es) \<longrightarrow>
             (\<exists>item. getStatus (run es (snd (enqueue newId now request s))) newId = Some item
                \<and> (status item = Pending \<or> status item = Processing)))"
proof -
  let ?s1 = "snd (enqueue newId now request s)"
  have stored: "\<exists>item. getStatus ?s1 newId = Some item
             \<and> item_id item = newId \<and> status item = Pending \<and> retries item = 0"
    by (simp add: enqueue_def getStatus_def update_conv')
  then have u: "unfinished newId ?s1" by (auto simp: unfinished_def)
  have d: "distinct (map fst (queue ?s1))"
    using assms by (simp add: enqueue_def distinct_update)
  have "\<exists>item. getStatus (run es ?s1) newId = Some item
                \<and> (status item = Pending \<or> status item = Processing)"
    if "\<forall>r t. FetchSettled newId r t \<notin> set es" for es
    using unfinished_run[OF d u that] by (auto simp: unfinished_def)
  with stored show ?thesis by (simp add: enqueue_def)
qed

theorem enqueue_pending_until_settled_witness:
  "distinct (map fst (queue new_service))
   \<and> fst (enqueue sample_id 1700000000000 sample_request new_service) = sample_id
   \<and> (\<exists>item. getStatus (run [RunProcessQueue]
          (snd (enqueue sample_id 1700000000000 sample_request new_service))) sample_id
            = Some item
        \<and> (status item = Pending \<or> status item = Processing))"
proof -
  have h: "distinct (map fst (queue new_service))" by (simp add: new_service_def)
  have n: "\<forall>r t. FetchSettled sample_id r t \<notin> set [RunProcessQueue]"
    by simp
  note t = enqueue_pending_until_settled[OF h, of sample_id 1700000000000 sample_request]
  from t have a: "fst (enqueue sample_id 1700000000000 sample_request new_service) = sample_id"
    by (rule conjunct1)
  from t have "\<forall>es. (\<forall>r t. FetchSettled sample_id r t \<notin> set es) \<longrightarrow>
      (\<exists>item. getStatus (run es (snd (enqueue sample_id 1700000000000
          sample_request new_service))) sample_id = Some item
        \<and> (status item = Pending \<or> status item = Processing))"
    by (rule conjunct2[OF conjunct2])
  then have b: "\<exists>item. getStatus (run [RunProcessQueue]
          (snd (enqueue sample_id 1700000000000 sample_request new_service))) sample_id
            = Some item
        \<and> (status item = Pending \<or> status item = Processing)"
    using n by blast
  from h a b show ?thesis by (intro conjI)
qed

subsection \<open>Cleanup\<close>

text \<open>
  Claim C7. For every queue (a map, so with distinct keys), every clock value and every
  \<open>maxAge\<close>, \<open>cleanup\<close> keeps, in order and unchanged, exactly the entries that are not both
  terminal (\<open>completed\<close> or \<open>failed\<close>) and older than \<open>maxAge\<close>: every \<open>pending\<close> or
  \<open>processing\<close> item stays whatever its age, every terminal item of age at most \<open>maxAge\<close>
  stays, and every terminal item older than \<open>maxAge\<close> is gone. Nothing else in the service
  changes.
\<close>

theorem cleanup_removes_exactly_old_terminal:
  assumes "distinct (map fst (queue s))"
  shows "queue (cleanup now maxAge s) =
           filter (\<lambda>(i, item). \<not> ((status item = Completed \<or> status item = Failed)
                                    \<and> now - createdAt item > maxAge)) (queue s)
       \<and> (\<forall>i item. getStatus s i = Some item \<longrightarrow>
             getStatus (cleanup now maxAge s) i =
               (if (status item = Completed \<or> status item = Failed)
                   \<and> now - createdAt item > maxAge
                then None else Some item))
       \<and> processing (cleanup now maxAge s) = processing s
       \<and> timers (cleanup now maxAge s) = timers s
       \<and> immediates (cleanup now maxAge s) = immediates s
       \<and> batches (cleanup now maxAge s) = batches s"
proof -
  have q: "queue (cleanup now maxAge s) =
           filter (\<lambda>(i, item). \<not> ((status item = Completed \<or> status item = Failed)
                                    \<and> now - createdAt item > maxAge)) (queue s)"
    by (rule cleanup_queue[OF assms])
  have g: "\<forall>i item. getStatus s i = Some item \<longrightarrow>
             getStatus (cleanup now maxAge s) i =
               (if (status item = Completed \<or> status item = Failed)
                   \<and> now - createdAt item > maxAge
                then None else Some item)"
    using getStatus_cleanup[OF assms] by blast
  have rest: "processing (cleanup now maxAge s) = processing s"
       "timers (cleanup now maxAge s) = timers s"
       "immediates (cleanup now maxAge s) = immediates s"
       "batches (cleanup now maxAge s) = batches s"
    by (simp_all add: cleanup_def Let_def)
  from q g rest show ?thesis by (intro conjI)
qed

theorem cleanup_removes_exactly_old_terminal_witness:
  "distinct (map fst (queue sample_queue))
   \<and> map fst (queue (cleanup 5000000 3600000 sample_queue)) = [''b'', ''c'']"
proof -
  have h: "distinct (map fst (queue sample_queue))"
    by (simp add: sample_queue_def new_service_def)
  from cleanup_removes_exactly_old_terminal[OF h, of 5000000 3600000] h
  show ?thesis by (simp add: sample_queue_def new_service_def)
qed

subsection \<open>A destination that always fails\<close>

lemmas queue_defs = enqueue_def new_service_def processQueue_begin_def pending_items_def
  toProcess_def processPostback_begin_def processPostback_settle_def allSettled_def
  processQueue_settled_def retry_timer_callback_def in_flight_def getStatus_def
  executePostback_def response_ok_def MAX_RETRIES_def RETRY_DELAY_def concurrentLimit_def
  set_add_def set_delete_def cleanup_def

lemma consume_non_2xx:
  assumes "db i = Some row" "row_status row = ''pending''" "\<not> response_ok c"
  shows "consume i (Response c) db =
     (if row_retries row + 1 \<ge> 3
      then (Ack, True, db(i \<mapsto> row\<lparr>row_status := ''failed'', row_retries := row_retries row + 1\<rparr>))
      else (Retry, True, db(i \<mapsto> row\<lparr>row_status := ''pending'', row_retries := row_retries row + 1\<rparr>)))"
  using assms by (simp add: consume_def Let_def)

lemma consume_not_pending:
  assumes "db i = Some row" "row_status row \<noteq> ''pending''"
  shows "consume i r db = (Ack, False, db)"
  using assms by (simp add: consume_def)

lemma worker_three_failures:
  assumes "db i = Some row" "row_status row = ''pending''" "row_retries row = 0"
    "\<not> response_ok c1" "\<not> response_ok c2" "\<not> response_ok c3"
  shows "\<exists>db1 db2 db3.
           consume i (Response c1) db = (Retry, True, db1)
         \<and> consume i (Response c2) db1 = (Retry, True, db2)
         \<and> consume i (Response c3) db2 = (Ack, True, db3)
         \<and> map_option row_status (db3 i) = Some ''failed''
         \<and> map_option row_retries (db3 i) = Some 3
         \<and> (\<forall>r. consume i r db3 = (Ack, False, db3))"
proof -
  let ?r1 = "row\<lparr>row_status := ''pending'', row_retries := 1\<rparr>"
  let ?r2 = "row\<lparr>row_status := ''pending'', row_retries := 2\<rparr>"
  let ?r3 = "row\<lparr>row_status := ''failed'', row_retries := 3\<rparr>"
  have 1: "consume i (Response c1) db = (Retry, True, db(i \<mapsto> ?r1))"
    using consume_non_2xx[of db i row c1] assms(1-4) by simp
  have 2: "consume i (Response c2) (db(i \<mapsto> ?r1)) = (Retry, True, db(i \<mapsto> ?r2))"
    using consume_non_2xx[of "db(i \<mapsto> ?r1)" i ?r1 c2] assms(5) by (simp add: numeral_2_eq_2)
  have 3: "consume i (Response c3) (db(i \<mapsto> ?r2)) = (Ack, True, db(i \<mapsto> ?r3))"
    using consume_non_2xx[of "db(i \<mapsto> ?r2)" i ?r2 c3] assms(6) by (simp add: numeral_3_eq_3 numeral_2_eq_2)
  have 4: "\<forall>r. consume i r (db(i \<mapsto> ?r3)) = (Ack, False, db(i \<mapsto> ?r3))"
    using consume_not_pending[of "db(i \<mapsto> ?r3)" i ?r3] by simp
  from 1 2 3 4 show ?thesis by (intro exI[of _ "db(i \<mapsto> ?r1)"] exI[of _ "db(i \<mapsto> ?r2)"] exI[of _ "db(i \<mapsto> ?r3)"]) simp
qed

subsection \<open>Progress of a job whose attempts fail\<close>

lemma pending_member:
  assumes "queue_wf s" "getStatus s i = Some item" "status item = Pending"
    "i \<notin> set (processing s)"
  shows "item \<in> set (pending_items s)"
proof -
  from assms(2) have m: "(i, item) \<in> set (queue s)"
    by (auto simp: getStatus_def dest: map_of_SomeD)
  with assms(1) have "item_id item = i" by (auto simp: queue_wf_def)
  with m assms(3,4) show ?thesis by (force simp: pending_items_def)
qed

lemma pending_items_immediates [simp]: "pending_items (s\<lparr>immediates := m\<rparr>) = pending_items s"
  by (simp add: pending_items_def)

lemma toProcess_all:
  "length (pending_items s) \<le> concurrentLimit \<Longrightarrow> toProcess s = map item_id (pending_items s)"
  by (simp add: toProcess_def)

lemma processing_fold_begin:
  "set (processing (fold processPostback_begin ids s)) = set (processing s) \<union> set ids"
  by (induction ids arbitrary: s) (auto simp: processPostback_begin_def set_add_def)

lemma fields_allSettled:
  "processing (allSettled i s) = processing s" "timers (allSettled i s) = timers s"
proof -
  have "processing ((processQueue_settled True ^^ n) s) = processing s
      \<and> timers ((processQueue_settled True ^^ n) s) = timers s" for n
    by (induction n) (simp_all add: processQueue_settled_def)
  then show "processing (allSettled i s) = processing s" "timers (allSettled i s) = timers s"
    by (simp_all add: allSettled_def case_prod_unfold Let_def)
qed

lemma pending_items_cong:
  "queue s' = queue s \<Longrightarrow> processing s' = processing s \<Longrightarrow> pending_items s' = pending_items s"
  by (simp add: pending_items_def)

lemma queue_entry:
  assumes "queue_wf s" "(k, x) \<in> set (queue s)"
  shows "item_id x = k" "getStatus s k = Some x"
  using assms by (auto simp: queue_wf_def getStatus_def)

lemma pending_after_begin:
  assumes wf: "queue_wf s" and le: "length (pending_items s) \<le> concurrentLimit"
  shows "pending_items (processQueue_begin s) = []"
proof (cases "pending_items s = []")
  case True
  then show ?thesis by (simp add: processQueue_begin_def)
next
  case False
  let ?s' = "processQueue_begin s"
  have wf': "queue_wf ?s'" using queue_wf_step[OF wf, of RunProcessQueue]
      queue_wf_step[of "s\<lparr>immediates := Suc (immediates s)\<rparr>" RunProcessQueue] wf
    by (simp add: queue_wf_def processQueue_begin_def pending_items_def toProcess_def)
  have pr: "set (processing ?s') = set (processing s) \<union> set (toProcess s)"
    using False by (simp add: processQueue_begin_def processing_fold_begin)
  have "\<not> (status x = Pending \<and> item_id x \<notin> set (processing ?s'))"
    if "x \<in> set (map snd (queue ?s'))" for x
  proof -
    from that obtain k where k: "(k, x) \<in> set (queue ?s')" by auto
    from queue_entry[OF wf' k] have id: "item_id x = k" and g: "getStatus ?s' k = Some x" .
    show ?thesis
    proof (cases "k \<in> set (toProcess s)")
      case True
      with id pr show ?thesis by simp
    next
      case nt: False
      with g have g0: "getStatus s k = Some x" by (simp add: getStatus_begin)
      have "x \<notin> set (pending_items s)"
      proof
        assume "x \<in> set (pending_items s)"
        then have "item_id x \<in> set (toProcess s)" by (simp add: toProcess_all[OF le])
        with id nt show False by simp
      qed
      with pending_member[OF wf g0] have "status x \<noteq> Pending \<or> k \<in> set (processing s)"
        by blast
      with id pr show ?thesis by auto
    qed
  qed
  then show ?thesis by (simp add: pending_items_def filter_empty_conv)
qed

lemma pass_takes_pending:
  assumes wf: "queue_wf s" and imm: "immediates s \<noteq> 0"
    and le: "length (pending_items s) \<le> concurrentLimit"
    and g: "getStatus s i = Some item" and st: "status item = Pending"
    and np: "i \<notin> set (processing s)"
  shows "i \<in> set (toProcess s)"
    and "getStatus (step RunProcessQueue s) i = Some (item\<lparr>status := Processing\<rparr>)"
    and "i \<in> set (in_flight (step RunProcessQueue s))"
    and "pending_items (step RunProcessQueue s) = []"
    and "queue_wf (step RunProcessQueue s)"
proof -
  let ?s0 = "s\<lparr>immediates := immediates s - 1\<rparr>"
  have p0: "pending_items ?s0 = pending_items s" by (simp add: pending_items_def)
  have wf0: "queue_wf ?s0" using wf by (simp add: queue_wf_def)
  have g0: "getStatus ?s0 i = Some item" using g by (simp add: getStatus_def)
  from pending_member[OF wf g st np] have m: "item \<in> set (pending_items s)" .
  from queue_entry(1)[OF wf] g have "item_id item = i"
    by (auto simp: getStatus_def dest: map_of_SomeD)
  with m show tp: "i \<in> set (toProcess s)" by (force simp: toProcess_all[OF le])
  from tp g0 imm show "getStatus (step RunProcessQueue s) i = Some (item\<lparr>status := Processing\<rparr>)"
    by (simp add: getStatus_begin)
  from m have "pending_items (s\<lparr>immediates := m'\<rparr>) \<noteq> []" for m' by auto
  with tp imm show "i \<in> set (in_flight (step RunProcessQueue s))"
    by (simp add: in_flight_begin)
  from pending_after_begin[OF wf0] le p0 imm show "pending_items (step RunProcessQueue s) = []"
    by simp
  show "queue_wf (step RunProcessQueue s)" by (rule queue_wf_step[OF wf])
qed

lemma processing_settle:
  "processing (processPostback_settle i r t s) = set_delete i (processing s)"
  by (simp add: processPostback_settle_def Let_def split: option.splits)

lemma timers_settle_fail:
  assumes "getStatus s i = Some item" "\<not> executePostback r" "Suc (retries item) < 3"
  shows "timers (processPostback_settle i r t s)
       = timers s @ [(t + 1000 * int (Suc (retries item)), i)]"
  using assms
  by (simp add: processPostback_settle_def Let_def getStatus_def MAX_RETRIES_def RETRY_DELAY_def)

lemma failing_settle:
  assumes wf: "queue_wf s" and inf: "i \<in> set (in_flight s)"
    and g: "getStatus s i = Some item" and nok: "\<not> executePostback r"
    and pe: "pending_items s = []"
  shows "getStatus (step (FetchSettled i r t) s) i =
           Some (item\<lparr>retries := Suc (retries item),
                       status := (if Suc (retries item) < 3 then Pending else Failed)\<rparr>)"
    and "i \<notin> set (in_flight (step (FetchSettled i r t) s))"
    and "i \<notin> set (processing (step (FetchSettled i r t) s))"
    and "queue_wf (step (FetchSettled i r t) s)"
    and "Suc (retries item) < 3 \<Longrightarrow>
           (t + 1000 * int (Suc (retries item)), i) \<in> set (timers (step (FetchSettled i r t) s))"
    and "\<forall>x \<in> set (pending_items (step (FetchSettled i r t) s)). item_id x = i"
    and "\<not> Suc (retries item) < 3 \<Longrightarrow> pending_items (step (FetchSettled i r t) s) = []"
proof -
  let ?s' = "step (FetchSettled i r t) s"
  have st: "step (FetchSettled i r t) s = allSettled i (processPostback_settle i r t s)"
    using inf by simp
  note step.simps [simp del]
  show g': "getStatus ?s' i =
           Some (item\<lparr>retries := Suc (retries item),
                       status := (if Suc (retries item) < 3 then Pending else Failed)\<rparr>)"
    unfolding st using getStatus_settle_fail[OF g nok, of t] by (simp add: getStatus_allSettled)
  show "i \<notin> set (in_flight ?s')"
    unfolding st by (simp add: in_flight_allSettled)
  have pr: "processing ?s' = removeAll i (processing s)"
    unfolding st by (simp add: fields_allSettled processing_settle set_delete_def)
  then show "i \<notin> set (processing ?s')" by simp
  show wf': "queue_wf ?s'" by (rule queue_wf_step[OF wf])
  show "(t + 1000 * int (Suc (retries item)), i) \<in> set (timers ?s')"
    if "Suc (retries item) < 3"
    unfolding st using timers_settle_fail[OF g nok that, of t] by (simp add: fields_allSettled)
  show op: "\<forall>x \<in> set (pending_items ?s'). item_id x = i"
  proof
    fix x assume x: "x \<in> set (pending_items ?s')"
    then obtain k where k: "(k, x) \<in> set (queue ?s')"
      and px: "status x = Pending" "item_id x \<notin> set (processing ?s')"
      by (auto simp: pending_items_def)
    from queue_entry[OF wf' k] have id: "item_id x = k" and gx: "getStatus ?s' k = Some x" .
    show "item_id x = i"
    proof (rule ccontr)
      assume "item_id x \<noteq> i"
      with id have ne: "i \<noteq> k" by simp
      with gx have "getStatus s k = Some x"
        unfolding st by (simp add: getStatus_allSettled getStatus_settle_other)
      moreover from px(2) id ne have "k \<notin> set (processing s)" by (simp add: pr)
      ultimately have "x \<in> set (pending_items s)" using px(1) by (intro pending_member[OF wf])
      with pe show False by simp
    qed
  qed
  show "pending_items ?s' = []" if nf: "\<not> Suc (retries item) < 3"
  proof (rule ccontr)
    assume "pending_items ?s' \<noteq> []"
    then obtain x where x: "x \<in> set (pending_items ?s')" by (cases "pending_items ?s'") auto
    with op have id: "item_id x = i" by blast
    from x obtain k where k: "(k, x) \<in> set (queue ?s')" and px: "status x = Pending"
      by (auto simp: pending_items_def)
    from queue_entry[OF wf' k] id have "getStatus ?s' i = Some x" by simp
    with g' nf px show False by simp
  qed
qed

lemma timer_fires:
  assumes "(due, i) \<in> set (timers s)" "due \<le> f" "i \<notin> set (processing s)"
  shows "immediates (step (TimerFired due i f) s) \<noteq> 0"
    and "queue (step (TimerFired due i f) s) = queue s"
    and "processing (step (TimerFired due i f) s) = processing s"
    and "in_flight (step (TimerFired due i f) s) = in_flight s"
  using assms by (simp_all add: retry_timer_callback_def set_delete_def in_flight_def)

lemma short_distinct: "distinct xs \<Longrightarrow> set xs \<subseteq> {a} \<Longrightarrow> length xs \<le> 1"
proof -
  assume d: "distinct xs" and s: "set xs \<subseteq> {a}"
  from distinct_card[OF d] have "length xs = card (set xs)" by simp
  also from s have "\<dots> \<le> card {a}" by (intro card_mono) simp_all
  finally show ?thesis by simp
qed

lemma only_pending_length:
  assumes wf: "queue_wf s" and op: "\<forall>x \<in> set (pending_items s). item_id x = i"
  shows "length (pending_items s) \<le> concurrentLimit"
proof -
  from wf have e: "map item_id (map snd (queue s)) = map fst (queue s)"
    by (auto simp: queue_wf_def)
  have "distinct (map item_id (map snd (queue s)))"
    unfolding e using wf by (simp add: queue_wf_def)
  then have "distinct (map item_id (pending_items s))"
    unfolding pending_items_def by (rule distinct_map_filter)
  moreover from op have "set (map item_id (pending_items s)) \<subseteq> {i}" by auto
  ultimately have "length (map item_id (pending_items s)) \<le> 1" by (rule short_distinct)
  then show ?thesis by (simp add: concurrentLimit_def)
qed

lemma length_filter_update:
  "length (filter P (AList.update k v q)) \<le> Suc (length (filter P q))"
  by (induction q) auto

lemma enqueue_ready:
  assumes wf: "queue_wf s" and np: "i \<notin> set (processing s)"
    and lt: "length (pending_items s) < concurrentLimit"
  shows "queue_wf (snd (enqueue i now request s))"
    and "immediates (snd (enqueue i now request s)) \<noteq> 0"
    and "i \<notin> set (processing (snd (enqueue i now request s)))"
    and "length (pending_items (snd (enqueue i now request s))) \<le> concurrentLimit"
    and "\<exists>item. getStatus (snd (enqueue i now request s)) i = Some item
           \<and> status item = Pending \<and> retries item = 0"
proof -
  show "queue_wf (snd (enqueue i now request s))"
    using queue_wf_step[OF wf, of "Enqueue i now request"] by simp
  show "immediates (snd (enqueue i now request s)) \<noteq> 0" by (simp add: enqueue_def)
  show "i \<notin> set (processing (snd (enqueue i now request s)))" using np by (simp add: enqueue_def)
  have "length (pending_items (snd (enqueue i now request s))) \<le> Suc (length (pending_items s))"
    by (simp add: enqueue_def pending_items_def filter_map length_filter_update)
  with lt show "length (pending_items (snd (enqueue i now request s))) \<le> concurrentLimit"
    by simp
  show "\<exists>item. getStatus (snd (enqueue i now request s)) i = Some item
           \<and> status item = Pending \<and> retries item = 0"
    by (simp add: enqueue_def getStatus_def update_conv')
qed

lemma attempt_round:
  assumes wf: "queue_wf s" and imm: "immediates s \<noteq> 0"
    and le: "length (pending_items s) \<le> concurrentLimit"
    and g: "getStatus s i = Some item" and st: "status item = Pending"
    and np: "i \<notin> set (processing s)" and nok: "\<not> executePostback r"
  shows "i \<in> set (toProcess s)"
    and "getStatus (step (FetchSettled i r t) (step RunProcessQueue s)) i =
           Some (item\<lparr>status := (if Suc (retries item) < 3 then Pending else Failed),
                       retries := Suc (retries item)\<rparr>)"
    and "queue_wf (step (FetchSettled i r t) (step RunProcessQueue s))"
    and "i \<notin> set (processing (step (FetchSettled i r t) (step RunProcessQueue s)))"
    and "length (pending_items (step (FetchSettled i r t) (step RunProcessQueue s)))
           \<le> concurrentLimit"
    and "Suc (retries item) < 3 \<Longrightarrow>
           (t + 1000 * int (Suc (retries item)), i)
             \<in> set (timers (step (FetchSettled i r t) (step RunProcessQueue s)))"
    and "\<not> Suc (retries item) < 3 \<Longrightarrow>
           pending_items (step (FetchSettled i r t) (step RunProcessQueue s)) = []"
proof -
  note step.simps [simp del]
  let ?a = "step RunProcessQueue s"
  note p = pass_takes_pending[OF wf imm le g st np]
  show "i \<in> set (toProcess s)" by (rule p(1))
  note f = failing_settle[OF p(5) p(3) p(2) nok p(4), of t]
  from f(1) show "getStatus (step (FetchSettled i r t) ?a) i =
           Some (item\<lparr>status := (if Suc (retries item) < 3 then Pending else Failed),
                       retries := Suc (retries item)\<rparr>)"
    by simp
  show "queue_wf (step (FetchSettled i r t) ?a)" by (rule f(4))
  show "i \<notin> set (processing (step (FetchSettled i r t) ?a))" by (rule f(3))
  show "length (pending_items (step (FetchSettled i r t) ?a)) \<le> concurrentLimit"
    by (rule only_pending_length[OF f(4) f(6)])
  show "(t + 1000 * int (Suc (retries item)), i) \<in> set (timers (step (FetchSettled i r t) ?a))"
    if "Suc (retries item) < 3"
    using f(5) that by simp
  show "pending_items (step (FetchSettled i r t) ?a) = []" if "\<not> Suc (retries item) < 3"
    using f(7) that by simp
qed

lemma after_timer:
  assumes wf: "queue_wf s" and tm: "(due, i) \<in> set (timers s)" and d: "due \<le> f"
    and np: "i \<notin> set (processing s)" and le: "length (pending_items s) \<le> concurrentLimit"
    and g: "getStatus s i = Some item"
  shows "queue_wf (step (TimerFired due i f) s)"
    and "immediates (step (TimerFired due i f) s) \<noteq> 0"
    and "length (pending_items (step (TimerFired due i f) s)) \<le> concurrentLimit"
    and "getStatus (step (TimerFired due i f) s) i = Some item"
    and "i \<notin> set (processing (step (TimerFired due i f) s))"
proof -
  note t = timer_fires[OF tm d np]
  note step.simps [simp del]
  show "queue_wf (step (TimerFired due i f) s)" by (rule queue_wf_step[OF wf])
  show "immediates (step (TimerFired due i f) s) \<noteq> 0" by (rule t(1))
  from pending_items_cong[OF t(2) t(3)] le
  show "length (pending_items (step (TimerFired due i f) s)) \<le> concurrentLimit" by simp
  from g t(2) show "getStatus (step (TimerFired due i f) s) i = Some item"
    by (simp add: getStatus_def)
  from np t(3) show "i \<notin> set (processing (step (TimerFired due i f) s))" by simp
qed

lemma always_failing_reaches_failed:
  assumes wf: "queue_wf s" and np: "i \<notin> set (processing s)"
    and lt: "length (pending_items s) < concurrentLimit"
    and n1: "\<not> executePostback r1" and n2: "\<not> executePostback r2" and n3: "\<not> executePostback r3"
    and d1: "t1 + RETRY_DELAY * 1 \<le> f1" and d2: "t2 + RETRY_DELAY * 2 \<le> f2"
  shows "executions i (retry_schedule i r1 t1 f1 r2 t2 f2 r3 t3)
           (snd (enqueue i now request s)) = 3"
    and "\<exists>item. getStatus (run (retry_schedule i r1 t1 f1 r2 t2 f2 r3 t3)
                     (snd (enqueue i now request s))) i = Some item
           \<and> status item = Failed \<and> retries item = 3"
    and "toProcess (run (retry_schedule i r1 t1 f1 r2 t2 f2 r3 t3)
           (snd (enqueue i now request s))) = []"
    and "\<exists>item. getStatus (run (take 2 (retry_schedule i r1 t1 f1 r2 t2 f2 r3 t3))
                     (snd (enqueue i now request s))) i = Some item
           \<and> status item = Pending \<and> retries item = 1"
    and "(t1 + RETRY_DELAY * 1, i) \<in> set (timers (run (take 2 (retry_schedule i r1 t1 f1 r2 t2 f2 r3 t3))
                     (snd (enqueue i now request s))))"
    and "\<exists>item. getStatus (run (take 5 (retry_schedule i r1 t1 f1 r2 t2 f2 r3 t3))
                     (snd (enqueue i now request s))) i = Some item
           \<and> status item = Pending \<and> retries item = 2"
    and "(t2 + RETRY_DELAY * 2, i) \<in> set (timers (run (take 5 (retry_schedule i r1 t1 f1 r2 t2 f2 r3 t3))
                     (snd (enqueue i now request s))))"
proof -
  note step.simps [simp del]
  let ?s1 = "snd (enqueue i now request s)"
  let ?b1 = "step (FetchSettled i r1 t1) (step RunProcessQueue ?s1)"
  let ?c1 = "step (TimerFired (t1 + RETRY_DELAY * 1) i f1) ?b1"
  let ?b2 = "step (FetchSettled i r2 t2) (step RunProcessQueue ?c1)"
  let ?c2 = "step (TimerFired (t2 + RETRY_DELAY * 2) i f2) ?b2"
  let ?b3 = "step (FetchSettled i r3 t3) (step RunProcessQueue ?c2)"
  note e = enqueue_ready[OF wf np lt, of now request]
  from e(5) obtain item0 where i0: "getStatus ?s1 i = Some item0" "status item0 = Pending"
    "retries item0 = 0" by blast
  note a1 = attempt_round[OF e(1) e(2) e(4) i0(1) i0(2) e(3) n1]
  let ?item1 = "item0\<lparr>status := Pending, retries := 1\<rparr>"
  from a1(2)[of t1] i0(3) have g1: "getStatus ?b1 i = Some ?item1" by simp
  from a1(6)[of t1] i0(3) have tm1: "(t1 + RETRY_DELAY * 1, i) \<in> set (timers ?b1)"
    by (simp add: RETRY_DELAY_def)
  note c1 = after_timer[OF a1(3)[of t1] tm1 d1 a1(4)[of t1] a1(5)[of t1] g1]
  note a2 = attempt_round[OF c1(1) c1(2) c1(3) c1(4) _ c1(5) n2]
  let ?item2 = "item0\<lparr>status := Pending, retries := 2\<rparr>"
  from a2(2)[of t2] have g2: "getStatus ?b2 i = Some ?item2" by simp
  from a2(6)[of t2] have tm2: "(t2 + RETRY_DELAY * 2, i) \<in> set (timers ?b2)"
    by (simp add: RETRY_DELAY_def)
  note c2 = after_timer[OF a2(3)[of t2] tm2 d2 a2(4)[of t2] a2(5)[of t2] g2]
  note a3 = attempt_round[OF c2(1) c2(2) c2(3) c2(4) _ c2(5) n3]
  let ?item3 = "item0\<lparr>status := Failed, retries := 3\<rparr>"
  from a3(2)[of t3] have g3: "getStatus ?b3 i = Some ?item3" by simp
  from a3(7)[of t3] have p3: "pending_items ?b3 = []" by simp
  have r: "run (retry_schedule i r1 t1 f1 r2 t2 f2 r3 t3) ?s1 = ?b3"
    "run (take 2 (retry_schedule i r1 t1 f1 r2 t2 f2 r3 t3)) ?s1 = ?b1"
    "run (take 5 (retry_schedule i r1 t1 f1 r2 t2 f2 r3 t3)) ?s1 = ?b2"
    by (simp_all add: retry_schedule_def)
  have "executions i (retry_schedule i r1 t1 f1 r2 t2 f2 r3 t3) ?s1 =
      (if immediates ?s1 \<noteq> 0 \<and> i \<in> set (toProcess ?s1) then 1 else 0)
    + ((if immediates ?c1 \<noteq> 0 \<and> i \<in> set (toProcess ?c1) then 1 else 0)
    + (if immediates ?c2 \<noteq> 0 \<and> i \<in> set (toProcess ?c2) then 1 else 0))"
    by (simp add: retry_schedule_def)
  with e(2) a1(1) c1(2) a2(1) c2(2) a3(1)
  show "executions i (retry_schedule i r1 t1 f1 r2 t2 f2 r3 t3) ?s1 = 3" by simp
  from g3 show "\<exists>item. getStatus (run (retry_schedule i r1 t1 f1 r2 t2 f2 r3 t3) ?s1) i = Some item
           \<and> status item = Failed \<and> retries item = 3"
    unfolding r by simp
  from p3 show "toProcess (run (retry_schedule i r1 t1 f1 r2 t2 f2 r3 t3) ?s1) = []"
    unfolding r by (simp add: toProcess_def)
  from g1 show "\<exists>item. getStatus (run (take 2 (retry_schedule i r1 t1 f1 r2 t2 f2 r3 t3)) ?s1) i
           = Some item \<and> status item = Pending \<and> retries item = 1"
    unfolding r by simp
  from tm1 show "(t1 + RETRY_DELAY * 1, i) \<in> set (timers (run (take 2
      (retry_schedule i r1 t1 f1 r2 t2 f2 r3 t3)) ?s1))"
    unfolding r .
  from g2 show "\<exists>item. getStatus (run (take 5 (retry_schedule i r1 t1 f1 r2 t2 f2 r3 t3)) ?s1) i
           = Some item \<and> status item = Pending \<and> retries item = 2"
    unfolding r by simp
  from tm2 show "(t2 + RETRY_DELAY * 2, i) \<in> set (timers (run (take 5
      (retry_schedule i r1 t1 f1 r2 t2 f2 r3 t3)) ?s1))"
    unfolding r .
qed

text \<open>
  Claim C1, as the code has it. A job is enqueued under an id that is neither in flight nor
  in \<open>processing\<close>, into a well-formed queue with fewer than \<open>concurrentLimit\<close> jobs
  waiting, and every HTTP call of the job fails (a non-2xx response, a transport error or
  the timeout).

  First, the job reaches \<open>failed\<close>. Along \<open>retry_schedule\<close> (the pass scheduled by
  \<open>enqueue\<close> runs, the call fails, the retry timer fires when it is due, the pass it
  schedules runs, and so on) the job is executed exactly three times: after the first
  failure it is \<open>pending\<close> with \<open>retries = 1\<close> and a timer due \<open>RETRY_DELAY * 1\<close> later, after
  the second it is \<open>pending\<close> with \<open>retries = 2\<close> and a timer due \<open>RETRY_DELAY * 2\<close> later,
  and the third failure leaves it \<open>failed\<close> with \<open>retries = 3\<close> and nothing for a pass to take.

  Second, nothing else can happen. Whatever callbacks run after the \<open>enqueue\<close>, in any
  order, as long as the id is not enqueued a second time: \<open>processPostback\<close> is started for
  the job at most three times; the job is \<open>failed\<close> exactly when three executions have been
  started and none is in flight any more, and then \<open>retries = 3\<close>; it is never \<open>completed\<close>;
  it can have been removed (by \<open>cleanup\<close>) only after that; and from then on no scheduling
  pass takes it.

  So the job fails on its third execution: the first attempt and two retries, not three
  retries. The worker's consumer counts the same way for non-2xx responses: a pending
  row without retries is sent back for redelivery after the first and the second failing
  response, is marked \<open>failed\<close> with \<open>retries = 3\<close> and acknowledged at the third, and every
  later delivery is acknowledged without an HTTP call.
\<close>

theorem failing_postback_fails_on_third_attempt:
  assumes "queue_wf s" "i \<notin> set (in_flight s)" "i \<notin> set (processing s)"
    and "length (pending_items s) < concurrentLimit"
    and "\<not> executePostback r1" "\<not> executePostback r2" "\<not> executePostback r3"
    and "t1 + RETRY_DELAY * 1 \<le> f1" "t2 + RETRY_DELAY * 2 \<le> f2"
    and "list_all (fails_for i) es"
    and "db i = Some row" "row_status row = ''pending''" "row_retries row = 0"
    and "\<not> response_ok c1" "\<not> response_ok c2" "\<not> response_ok c3"
  shows "(let s1 = snd (enqueue i now request s);
              schedule = retry_schedule i r1 t1 f1 r2 t2 f2 r3 t3
          in executions i schedule s1 = 3
           \<and> (\<exists>item. getStatus (run schedule s1) i = Some item
                 \<and> status item = Failed \<and> retries item = 3)
           \<and> toProcess (run schedule s1) = []
           \<and> (\<exists>item. getStatus (run (take 2 schedule) s1) i = Some item
                 \<and> status item = Pending \<and> retries item = 1)
           \<and> (t1 + RETRY_DELAY * 1, i) \<in> set (timers (run (take 2 schedule) s1))
           \<and> (\<exists>item. getStatus (run (take 5 schedule) s1) i = Some item
                 \<and> status item = Pending \<and> retries item = 2)
           \<and> (t2 + RETRY_DELAY * 2, i) \<in> set (timers (run (take 5 schedule) s1)))
       \<and> (let s1 = snd (enqueue i now request s);
              n = executions i es s1;
              s' = run es s1
          in n \<le> 3
           \<and> (\<forall>item. getStatus s' i = Some item \<longrightarrow>
                 status item \<noteq> Completed
               \<and> (status item = Failed \<longleftrightarrow> n = 3 \<and> i \<notin> set (in_flight s'))
               \<and> (status item = Failed \<longrightarrow> retries item = 3))
           \<and> (getStatus s' i = None \<longrightarrow> n = 3 \<and> i \<notin> set (in_flight s'))
           \<and> (n = 3 \<and> i \<notin> set (in_flight s') \<longrightarrow> i \<notin> set (toProcess s')))
       \<and> (\<exists>db1 db2 db3.
             consume i (Response c1) db = (Retry, True, db1)
           \<and> consume i (Response c2) db1 = (Retry, True, db2)
           \<and> consume i (Response c3) db2 = (Ack, True, db3)
           \<and> map_option row_status (db3 i) = Some ''failed''
           \<and> map_option row_retries (db3 i) = Some 3
           \<and> (\<forall>r. consume i r db3 = (Ack, False, db3)))"
proof -
  let ?s1 = "snd (enqueue i now request s)"
  let ?n = "executions i es ?s1"
  let ?s' = "run es ?s1"
  note reach = always_failing_reaches_failed[OF assms(1) assms(3) assms(4) assms(5) assms(6)
      assms(7) assms(8) assms(9), where now = now and request = request and ?t3.0 = t3]
  from reach have progress: "(let s1 = snd (enqueue i now request s);
              schedule = retry_schedule i r1 t1 f1 r2 t2 f2 r3 t3
          in executions i schedule s1 = 3
           \<and> (\<exists>item. getStatus (run schedule s1) i = Some item
                 \<and> status item = Failed \<and> retries item = 3)
           \<and> toProcess (run schedule s1) = []
           \<and> (\<exists>item. getStatus (run (take 2 schedule) s1) i = Some item
                 \<and> status item = Pending \<and> retries item = 1)
           \<and> (t1 + RETRY_DELAY * 1, i) \<in> set (timers (run (take 2 schedule) s1))
           \<and> (\<exists>item. getStatus (run (take 5 schedule) s1) i = Some item
                 \<and> status item = Pending \<and> retries item = 2)
           \<and> (t2 + RETRY_DELAY * 2, i) \<in> set (timers (run (take 5 schedule) s1)))"
    unfolding Let_def by (intro conjI)
  have "attempt_inv i 0 ?s1" using assms(1,2) by (rule attempt_inv_enqueue)
  from attempt_inv_run[OF this assms(10)] have inv: "attempt_inv i ?n ?s'" by simp
  then have n: "?n \<le> 3" by (simp add: attempt_inv_def)
  have a: "status item \<noteq> Completed
               \<and> (status item = Failed \<longleftrightarrow> ?n = 3 \<and> i \<notin> set (in_flight ?s'))
               \<and> (status item = Failed \<longrightarrow> retries item = 3)"
    if "getStatus ?s' i = Some item" for item
    using inv that by (auto simp: attempt_inv_def split: if_splits)
  have b: "?n = 3 \<and> i \<notin> set (in_flight ?s')" if "getStatus ?s' i = None"
    using inv that by (auto simp: attempt_inv_def split: if_splits)
  have c: "i \<notin> set (toProcess ?s')" if "?n = 3 \<and> i \<notin> set (in_flight ?s')"
  proof
    assume "i \<in> set (toProcess ?s')"
    moreover from inv have "queue_wf ?s'" by (simp add: attempt_inv_def)
    ultimately obtain item where "getStatus ?s' i = Some item" "status item = Pending"
      using toProcess_pending by blast
    with inv that show False by (auto simp: attempt_inv_def split: if_splits)
  qed
  from n a b c have safety: "(let s1 = snd (enqueue i now request s);
              n = executions i es s1;
              s' = run es s1
          in n \<le> 3
           \<and> (\<forall>item. getStatus s' i = Some item \<longrightarrow>
                 status item \<noteq> Completed
               \<and> (status item = Failed \<longleftrightarrow> n = 3 \<and> i \<notin> set (in_flight s'))
               \<and> (status item = Failed \<longrightarrow> retries item = 3))
           \<and> (getStatus s' i = None \<longrightarrow> n = 3 \<and> i \<notin> set (in_flight s'))
           \<and> (n = 3 \<and> i \<notin> set (in_flight s') \<longrightarrow> i \<notin> set (toProcess s')))"
    unfolding Let_def by blast
  from assms(11-16) have worker: "\<exists>db1 db2 db3.
             consume i (Response c1) db = (Retry, True, db1)
           \<and> consume i (Response c2) db1 = (Retry, True, db2)
           \<and> consume i (Response c3) db2 = (Ack, True, db3)
           \<and> map_option row_status (db3 i) = Some ''failed''
           \<and> map_option row_retries (db3 i) = Some 3
           \<and> (\<forall>r. consume i r db3 = (Ack, False, db3))"
    by (rule worker_three_failures[of db i row c1 c2 c3])
  from progress safety worker show ?thesis by (intro conjI)
qed

theorem failing_postback_fails_on_third_attempt_witness:
  "queue_wf new_service
   \<and> sample_id \<notin> set (in_flight new_service)
   \<and> sample_id \<notin> set (processing new_service)
   \<and> length (pending_items new_service) < concurrentLimit
   \<and> \<not> executePostback (Response 500) \<and> \<not> executePostback Rejected
   \<and> \<not> executePostback (Response 503)
   \<and> (1700000000100::int) + RETRY_DELAY * 1 \<le> 1700000001100
   \<and> (1700000031100::int) + RETRY_DELAY * 2 \<le> 1700000033100
   \<and> list_all (fails_for sample_id) failing_trace
   \<and> [sample_id \<mapsto> sample_row] sample_id = Some sample_row
   \<and> row_status sample_row = ''pending'' \<and> row_retries sample_row = 0
   \<and> \<not> response_ok 500 \<and> \<not> response_ok 502 \<and> \<not> response_ok 503
   \<and> executions sample_id
        (retry_schedule sample_id (Response 500) 1700000000100 1700000001100
           Rejected 1700000031100 1700000033100 (Response 503) 1700000033200)
        (snd (enqueue sample_id 1700000000000 sample_request new_service)) = 3
   \<and> (\<exists>item. getStatus (run
          (retry_schedule sample_id (Response 500) 1700000000100 1700000001100
             Rejected 1700000031100 1700000033100 (Response 503) 1700000033200)
          (snd (enqueue sample_id 1700000000000 sample_request new_service))) sample_id
            = Some item
         \<and> status item = Failed \<and> retries item = 3)
   \<and> executions sample_id failing_trace
         (snd (enqueue sample_id 1700000000000 sample_request new_service)) \<le> 3
   \<and> (\<exists>db1 db2 db3.
         consume sample_id (Response 500) [sample_id \<mapsto> sample_row] = (Retry, True, db1)
       \<and> consume sample_id (Response 502) db1 = (Retry, True, db2)
       \<and> consume sample_id (Response 503) db2 = (Ack, True, db3)
       \<and> map_option row_status (db3 sample_id) = Some ''failed''
       \<and> map_option row_retries (db3 sample_id) = Some 3
       \<and> (\<forall>r. consume sample_id r db3 = (Ack, False, db3)))"
proof -
  have h1: "queue_wf new_service" by (simp add: queue_wf_def new_service_def)
  have h2: "sample_id \<notin> set (in_flight new_service)"
    by (simp add: in_flight_def new_service_def)
  have h3: "sample_id \<notin> set (processing new_service)" by (simp add: new_service_def)
  have h4: "length (pending_items new_service) < concurrentLimit"
    by (simp add: pending_items_def new_service_def concurrentLimit_def)
  have h5: "\<not> executePostback (Response 500)" "\<not> executePostback Rejected"
      "\<not> executePostback (Response 503)"
    by (simp_all add: executePostback_def response_ok_def)
  have h6: "(1700000000100::int) + RETRY_DELAY * 1 \<le> 1700000001100"
      "(1700000031100::int) + RETRY_DELAY * 2 \<le> 1700000033100"
    by (simp_all add: RETRY_DELAY_def)
  have h7: "list_all (fails_for sample_id) failing_trace"
    by (simp add: failing_trace_def executePostback_def response_ok_def)
  have h8: "[sample_id \<mapsto> sample_row] sample_id = Some sample_row" by simp
  have h9: "row_status sample_row = ''pending''" "row_retries sample_row = 0"
    by (simp_all add: sample_row_def)
  have h10: "\<not> response_ok 500" "\<not> response_ok 502" "\<not> response_ok 503"
    by (simp_all add: response_ok_def)
  note t = failing_postback_fails_on_third_attempt[where s = new_service and i = sample_id
      and ?r1.0 = "Response 500" and ?r2.0 = Rejected and ?r3.0 = "Response 503"
      and ?t1.0 = 1700000000100 and ?f1.0 = 1700000001100
      and ?t2.0 = 1700000031100 and ?f2.0 = 1700000033100 and ?t3.0 = 1700000033200
      and es = failing_trace and db = "[sample_id \<mapsto> sample_row]" and row = sample_row
      and ?c1.0 = 500 and ?c2.0 = 502 and ?c3.0 = 503 and now = 1700000000000
      and request = sample_request, OF h1 h2 h3 h4 h5 h6 h7 h8 h9 h10]
  note p = t[THEN conjunct1, unfolded Let_def]
  note q = t[THEN conjunct2, THEN conjunct1, unfolded Let_def]
  note w = t[THEN conjunct2, THEN conjunct2]
  from p have a: "executions sample_id
        (retry_schedule sample_id (Response 500) 1700000000100 1700000001100
           Rejected 1700000031100 1700000033100 (Response 503) 1700000033200)
        (snd (enqueue sample_id 1700000000000 sample_request new_service)) = 3"
    by (rule conjunct1)
  from p have b: "\<exists>item. getStatus (run
          (retry_schedule sample_id (Response 500) 1700000000100 1700000001100
             Rejected 1700000031100 1700000033100 (Response 503) 1700000033200)
          (snd (enqueue sample_id 1700000000000 sample_request new_service))) sample_id
            = Some item
         \<and> status item = Failed \<and> retries item = 3"
    by (rule conjunct1[OF conjunct2])
  from q have c: "executions sample_id failing_trace
         (snd (enqueue sample_id 1700000000000 sample_request new_service)) \<le> 3"
    by (rule conjunct1)
  from h1 h2 h3 h4 h5 h6 h7 h8 h9 h10 a b c w show ?thesis by (intro conjI)
qed

text \<open>
  The claim as written asks for three retries, four executions in all. On the run
  \<open>failing_trace\<close> the job is executed three times, not four, and is then \<open>failed\<close> with
  \<open>retries = 3\<close> while nothing is left for a pass to take.
\<close>

theorem failing_postback_four_attempts_counterexample:
  "executions sample_id failing_trace enqueued_service = 3
   \<and> executions sample_id failing_trace enqueued_service \<noteq> 4
   \<and> map_option status (getStatus (run failing_trace enqueued_service) sample_id) = Some Failed
   \<and> map_option retries (getStatus (run failing_trace enqueued_service) sample_id) = Some 3
   \<and> toProcess (run failing_trace enqueued_service) = []"
  by (simp add: failing_trace_def enqueued_service_def queue_defs Let_def)

subsection \<open>The retry delay\<close>

text \<open>
  Claim C4, at an input where the code departs from it. The first attempt of a job fails
  100 ms after the job was enqueued; its retry timer is set for 1000 ms later. A second job
  is enqueued 100 ms after the failure. The \<open>finally\<close> block has already removed the first
  job from \<open>processing\<close>, so the pass that the second \<open>enqueue\<close> schedules takes both jobs:
  the first job is executed a second time while its retry timer is still pending.
\<close>

theorem retry_runs_before_delay_expires:
  "timers (run early_retry_trace enqueued_service) = [(1700000001100, sample_id)]
   \<and> processing (run early_retry_trace enqueued_service) = []
   \<and> immediates (run early_retry_trace enqueued_service) = 1
   \<and> toProcess (run early_retry_trace enqueued_service) = [sample_id, other_id]
   \<and> map_option status
        (getStatus (run (early_retry_trace @ [RunProcessQueue]) enqueued_service) sample_id)
       = Some Processing
   \<and> timers (run (early_retry_trace @ [RunProcessQueue]) enqueued_service)
       = [(1700000001100, sample_id)]
   \<and> executions sample_id (early_retry_trace @ [RunProcessQueue]) enqueued_service = 2"
  by (simp add: early_retry_trace_def enqueued_service_def queue_defs Let_def sample_id_def
      other_id_def)

section \<open>Properties of the connection registry\<close>

subsection \<open>The registry invariant\<close>

lemma members_index_add:
  "members (index_add key k idx) key' =
     (if key' = key then set_add k (members idx key) else members idx key')"
  by (simp add: index_add_def members_def Let_def)

lemma index_add_Some:
  "index_add key k idx key' = Some s \<Longrightarrow>
     (key' = key \<and> s = set_add k (members idx key)) \<or> (key' \<noteq> key \<and> idx key' = Some s)"
  by (auto simp: index_add_def members_def Let_def split: if_splits)

lemma members_index_remove:
  "members (index_remove key k idx) key' =
     (if key' = key then removeAll k (members idx key) else members idx key')"
  by (auto simp: index_remove_def members_def set_delete_def split: option.splits)

lemma index_remove_Some:
  "index_remove key k idx key' = Some s \<Longrightarrow>
     (key' = key \<and> s \<noteq> [] \<and> (\<exists>s0. idx key = Some s0 \<and> s = removeAll k s0))
   \<or> (key' \<noteq> key \<and> idx key' = Some s)"
  by (auto simp: index_remove_def set_delete_def split: option.splits if_splits)

lemma removeConnection_eq: "removeConnection k reg = handleDisconnection k reg"
  by (simp add: removeConnection_def handleDisconnection_def Let_def split: option.splits)

lemma set_add_fresh: "k \<notin> set s \<Longrightarrow> set_add k s = s @ [k]"
  by (simp add: set_add_def)

lemma registry_inv_new: "registry_inv new_registry"
  by (simp add: registry_inv_def new_registry_def members_def)

lemma inv_conn_channel:
  "registry_inv reg \<Longrightarrow> connections reg k = Some conn \<Longrightarrow>
     k \<in> set (members (channelIndex reg) (channel conn))"
  by (simp add: registry_inv_def)

lemma inv_conn_user:
  "registry_inv reg \<Longrightarrow> connections reg k = Some conn \<Longrightarrow>
     k \<in> set (members (userIndex reg) (userId conn))"
  by (simp add: registry_inv_def)

lemma inv_channel_conn:
  "registry_inv reg \<Longrightarrow> k \<in> set (members (channelIndex reg) c) \<Longrightarrow>
     \<exists>conn. connections reg k = Some conn \<and> channel conn = c"
  by (simp add: registry_inv_def)

lemma inv_user_conn:
  "registry_inv reg \<Longrightarrow> k \<in> set (members (userIndex reg) u) \<Longrightarrow>
     \<exists>conn. connections reg k = Some conn \<and> userId conn = u"
  by (simp add: registry_inv_def)

lemma inv_channel_set:
  "registry_inv reg \<Longrightarrow> channelIndex reg c = Some s \<Longrightarrow> s \<noteq> [] \<and> distinct s"
  by (simp add: registry_inv_def)

lemma inv_user_set:
  "registry_inv reg \<Longrightarrow> userIndex reg u = Some s \<Longrightarrow> s \<noteq> [] \<and> distinct s"
  by (simp add: registry_inv_def)

lemma inv_distinct_members:
  assumes "registry_inv reg"
  shows "distinct (members (channelIndex reg) c)" "distinct (members (userIndex reg) u)"
  using inv_channel_set[OF assms] inv_user_set[OF assms]
  by (auto simp: members_def split: option.splits)

lemma registry_invI:
  assumes "\<And>k conn. connections reg k = Some conn \<Longrightarrow>
          k \<in> set (members (channelIndex reg) (channel conn))
        \<and> k \<in> set (members (userIndex reg) (userId conn))"
    and "\<And>c k. k \<in> set (members (channelIndex reg) c) \<Longrightarrow>
          \<exists>conn. connections reg k = Some conn \<and> channel conn = c"
    and "\<And>u k. k \<in> set (members (userIndex reg) u) \<Longrightarrow>
          \<exists>conn. connections reg k = Some conn \<and> userId conn = u"
    and "\<And>c s. channelIndex reg c = Some s \<Longrightarrow> s \<noteq> [] \<and> distinct s"
    and "\<And>u s. userIndex reg u = Some s \<Longrightarrow> s \<noteq> [] \<and> distinct s"
  shows "registry_inv reg"
  unfolding registry_inv_def using assms by blast

lemma registry_inv_register:
  assumes inv: "registry_inv reg" and fresh: "connections reg k = None"
  shows "registry_inv (register k conn reg)"
proof (rule registry_invI)
  let ?reg = "register k conn reg"
  from inv_channel_conn[OF inv] fresh have nc: "k \<notin> set (members (channelIndex reg) c)" for c
    by fastforce
  from inv_user_conn[OF inv] fresh have nu: "k \<notin> set (members (userIndex reg) u)" for u
    by fastforce
  have mc: "members (channelIndex ?reg) c =
      (if c = channel conn then members (channelIndex reg) c @ [k] else members (channelIndex reg) c)" for c
    using nc by (simp add: register_def members_index_add set_add_fresh)
  have mu: "members (userIndex ?reg) u =
      (if u = userId conn then members (userIndex reg) u @ [k] else members (userIndex reg) u)" for u
    using nu by (simp add: register_def members_index_add set_add_fresh)
  have cn: "connections ?reg = (connections reg)(k \<mapsto> conn)"
    by (simp add: register_def)
  show "k' \<in> set (members (channelIndex ?reg) (channel conn'))
        \<and> k' \<in> set (members (userIndex ?reg) (userId conn'))"
    if "connections ?reg k' = Some conn'" for k' conn'
  proof (cases "k' = k")
    case True
    with that have e: "conn' = conn" by (simp add: cn)
    show ?thesis unfolding e True by (simp add: mc mu)
  next
    case False
    with that have "connections reg k' = Some conn'" by (simp add: cn)
    from inv_conn_channel[OF inv this] inv_conn_user[OF inv this] show ?thesis
      by (auto simp: mc mu)
  qed
  show "\<exists>conn'. connections ?reg k' = Some conn' \<and> channel conn' = c"
    if "k' \<in> set (members (channelIndex ?reg) c)" for c k'
  proof (cases "k' = k")
    case True
    with that nc[of c] show ?thesis by (simp add: cn mc split: if_splits)
  next
    case False
    with that have "k' \<in> set (members (channelIndex reg) c)" by (simp add: mc split: if_splits)
    from inv_channel_conn[OF inv this] False show ?thesis by (simp add: cn)
  qed
  show "\<exists>conn'. connections ?reg k' = Some conn' \<and> userId conn' = u"
    if "k' \<in> set (members (userIndex ?reg) u)" for u k'
  proof (cases "k' = k")
    case True
    with that nu[of u] show ?thesis by (simp add: cn mu split: if_splits)
  next
    case False
    with that have "k' \<in> set (members (userIndex reg) u)" by (simp add: mu split: if_splits)
    from inv_user_conn[OF inv this] False show ?thesis by (simp add: cn)
  qed
  show "s \<noteq> [] \<and> distinct s" if "channelIndex ?reg c = Some s" for c s
  proof -
    from that have "index_add (channel conn) k (channelIndex reg) c = Some s"
      by (simp add: register_def)
    from index_add_Some[OF this] show ?thesis
    proof
      assume a: "c = channel conn \<and> s = set_add k (members (channelIndex reg) (channel conn))"
      with inv_distinct_members(1)[OF inv, of "channel conn"] nc[of "channel conn"]
      show ?thesis by (simp add: set_add_fresh)
    next
      assume "c \<noteq> channel conn \<and> channelIndex reg c = Some s"
      with inv_channel_set[OF inv] show ?thesis by blast
    qed
  qed
  show "s \<noteq> [] \<and> distinct s" if "userIndex ?reg u = Some s" for u s
  proof -
    from that have "index_add (userId conn) k (userIndex reg) u = Some s"
      by (simp add: register_def)
    from index_add_Some[OF this] show ?thesis
    proof
      assume a: "u = userId conn \<and> s = set_add k (members (userIndex reg) (userId conn))"
      with inv_distinct_members(2)[OF inv, of "userId conn"] nu[of "userId conn"]
      show ?thesis by (simp add: set_add_fresh)
    next
      assume "u \<noteq> userId conn \<and> userIndex reg u = Some s"
      with inv_user_set[OF inv] show ?thesis by blast
    qed
  qed
qed

lemma handleDisconnection_fields:
  assumes "connections reg k = Some conn"
  shows "connections (handleDisconnection k reg) = (connections reg)(k := None)"
    "channelIndex (handleDisconnection k reg) = index_remove (channel conn) k (channelIndex reg)"
    "userIndex (handleDisconnection k reg) = index_remove (userId conn) k (userIndex reg)"
  using assms by (simp_all add: handleDisconnection_def Let_def)

lemma handleDisconnection_unknown:
  "connections reg k = None \<Longrightarrow> handleDisconnection k reg = reg"
  by (simp add: handleDisconnection_def)

lemma registry_inv_disconnect:
  assumes inv: "registry_inv reg"
  shows "registry_inv (handleDisconnection k reg)"
proof (cases "connections reg k")
  case None
  with inv show ?thesis by (simp add: handleDisconnection_unknown)
next
  case (Some conn)
  let ?reg = "handleDisconnection k reg"
  note f = handleDisconnection_fields[OF Some]
  have mc: "members (channelIndex ?reg) c =
      (if c = channel conn then removeAll k (members (channelIndex reg) c)
       else members (channelIndex reg) c)" for c
    by (simp add: f members_index_remove)
  have mu: "members (userIndex ?reg) u =
      (if u = userId conn then removeAll k (members (userIndex reg) u)
       else members (userIndex reg) u)" for u
    by (simp add: f members_index_remove)
  show ?thesis
  proof (rule registry_invI)
    show "k' \<in> set (members (channelIndex ?reg) (channel conn'))
        \<and> k' \<in> set (members (userIndex ?reg) (userId conn'))"
      if "connections ?reg k' = Some conn'" for k' conn'
    proof -
      from that have ne: "k' \<noteq> k" and c: "connections reg k' = Some conn'"
        by (auto simp: f split: if_splits)
      from inv_conn_channel[OF inv c] inv_conn_user[OF inv c] ne show ?thesis
        by (auto simp: mc mu)
    qed
    show "\<exists>conn'. connections ?reg k' = Some conn' \<and> channel conn' = c"
      if "k' \<in> set (members (channelIndex ?reg) c)" for c k'
    proof -
      from that have m: "k' \<in> set (members (channelIndex reg) c)"
        by (simp add: mc split: if_splits)
      from inv_channel_conn[OF inv m] obtain conn' where
        c': "connections reg k' = Some conn'" "channel conn' = c" by blast
      have "k' \<noteq> k"
      proof
        assume "k' = k"
        with c' Some have "c = channel conn" by simp
        with that \<open>k' = k\<close> show False by (simp add: mc)
      qed
      with c' show ?thesis by (simp add: f)
    qed
    show "\<exists>conn'. connections ?reg k' = Some conn' \<and> userId conn' = u"
      if "k' \<in> set (members (userIndex ?reg) u)" for u k'
    proof -
      from that have m: "k' \<in> set (members (userIndex reg) u)"
        by (simp add: mu split: if_splits)
      from inv_user_conn[OF inv m] obtain conn' where
        c': "connections reg k' = Some conn'" "userId conn' = u" by blast
      have "k' \<noteq> k"
      proof
        assume "k' = k"
        with c' Some have "u = userId conn" by simp
        with that \<open>k' = k\<close> show False by (simp add: mu)
      qed
      with c' show ?thesis by (simp add: f)
    qed
    show "s \<noteq> [] \<and> distinct s" if "channelIndex ?reg c = Some s" for c s
    proof -
      from that have "index_remove (channel conn) k (channelIndex reg) c = Some s"
        by (simp add: f)
      from index_remove_Some[OF this] inv_channel_set[OF inv] show ?thesis
        by (auto simp: distinct_removeAll)
    qed
    show "s \<noteq> [] \<and> distinct s" if "userIndex ?reg u = Some s" for u s
    proof -
      from that have "index_remove (userId conn) k (userIndex reg) u = Some s"
        by (simp add: f)
      from index_remove_Some[OF this] inv_user_set[OF inv] show ?thesis
        by (auto simp: distinct_removeAll)
    qed
  qed
qed

lemma registry_inv_consistent:
  assumes inv: "registry_inv reg"
  shows "registry_consistent reg"
proof -
  have 1: "(\<exists>!c. k \<in> set (members (channelIndex reg) c))
         \<and> (\<exists>!u. k \<in> set (members (userIndex reg) u))"
    if "k \<in> dom (connections reg)" for k
  proof -
    from that obtain conn where c: "connections reg k = Some conn" by auto
    have "\<exists>!c. k \<in> set (members (channelIndex reg) c)"
    proof (rule ex1I[of _ "channel conn"])
      show "k \<in> set (members (channelIndex reg) (channel conn))"
        by (rule inv_conn_channel[OF inv c])
    next
      fix c' assume "k \<in> set (members (channelIndex reg) c')"
      from inv_channel_conn[OF inv this] c show "c' = channel conn" by auto
    qed
    moreover have "\<exists>!u. k \<in> set (members (userIndex reg) u)"
    proof (rule ex1I[of _ "userId conn"])
      show "k \<in> set (members (userIndex reg) (userId conn))"
        by (rule inv_conn_user[OF inv c])
    next
      fix u' assume "k \<in> set (members (userIndex reg) u')"
      from inv_user_conn[OF inv this] c show "u' = userId conn" by auto
    qed
    ultimately show ?thesis by (rule conjI)
  qed
  have 2: "k \<in> dom (connections reg)" if "k \<in> set (members (channelIndex reg) c)" for c k
    using inv_channel_conn[OF inv that] by auto
  have 3: "k \<in> dom (connections reg)" if "k \<in> set (members (userIndex reg) u)" for u k
    using inv_user_conn[OF inv that] by auto
  have 4: "channelIndex reg c \<noteq> None \<longleftrightarrow> members (channelIndex reg) c \<noteq> []" for c
    using inv_channel_set[OF inv, of c] by (auto simp: members_def split: option.splits)
  have 5: "userIndex reg u \<noteq> None \<longleftrightarrow> members (userIndex reg) u \<noteq> []" for u
    using inv_user_set[OF inv, of u] by (auto simp: members_def split: option.splits)
  from 1 2 3 4 5 show ?thesis unfolding registry_consistent_def by blast
qed

lemma node_reachable_inv: "node_reachable reg \<Longrightarrow> registry_inv reg"
proof (induction rule: node_reachable.induct)
  case node_new
  show ?case by (rule registry_inv_new)
next
  case (node_connect reg sid rawChannel rawUserId rndChannel rndUser now)
  then show ?case by (simp add: handleConnection_def Let_def registry_inv_register)
next
  case (node_disconnect reg sid)
  then show ?case by (simp add: registry_inv_disconnect)
qed

lemma worker_reachable_inv: "worker_reachable reg \<Longrightarrow> registry_inv reg"
proof (induction rule: worker_reachable.induct)
  case worker_new
  show ?case by (rule registry_inv_new)
next
  case (worker_connect reg server rawChannel rawUserId rndChannel rndUser uuid now)
  then show ?case by (simp add: handleWebSocket_def Let_def registry_inv_register)
next
  case (worker_remove reg ws)
  then show ?case by (simp add: removeConnection_eq registry_inv_disconnect)
qed

lemmas registry_defs = handleConnection_def handleWebSocket_def register_def index_add_def
  index_remove_def handleDisconnection_def removeConnection_def members_def new_registry_def
  resolve_name_def first_value_def trim_def js_whitespace_def generateChannel_def
  generateUserId_def substring_def set_add_def set_delete_def str_def truthy_def

lemma sample_registry_reachable: "node_reachable sample_registry"
  unfolding sample_registry_def
  by (intro node_reachable.intros) (simp add: new_registry_def)

lemma sample_worker_registry_reachable: "worker_reachable sample_worker_registry"
  unfolding sample_worker_registry_def
  by (intro worker_reachable.intros) (simp_all add: registry_defs Let_def)

text \<open>
  Claim C3. In every state the Node service or the worker reaches from the empty registry
  by registrations (each under the key of a new socket) and removals, every id of the
  primary table is in exactly one channel entry and exactly one user entry, every id in an
  index entry is in the primary table, and an index key exists exactly when its set is not
  empty.
\<close>

theorem registry_invariant:
  "(node_reachable reg \<longrightarrow> registry_consistent reg)
   \<and> (worker_reachable wreg \<longrightarrow> registry_consistent wreg)"
proof (intro conjI impI)
  assume "node_reachable reg"
  then show "registry_consistent reg"
    by (intro registry_inv_consistent node_reachable_inv)
next
  assume "worker_reachable wreg"
  then show "registry_consistent wreg"
    by (intro registry_inv_consistent worker_reachable_inv)
qed

theorem registry_invariant_witness:
  "node_reachable sample_registry \<and> worker_reachable sample_worker_registry
   \<and> registry_consistent sample_registry \<and> registry_consistent sample_worker_registry"
proof -
  note t = registry_invariant[of sample_registry sample_worker_registry]
  from t sample_registry_reachable have a: "registry_consistent sample_registry" by blast
  from t sample_worker_registry_reachable have b: "registry_consistent sample_worker_registry"
    by blast
  from sample_registry_reachable sample_worker_registry_reachable a b show ?thesis
    by (intro conjI)
qed

subsection \<open>Removal\<close>

text \<open>
  Claim C9. Removing a key that is not in the primary table returns the registry as it is,
  in both classes. In a registry that satisfies the invariant, removing a present key
  deletes it from the primary table and from every set of both indexes and changes nothing
  else, and an index key is absent afterwards exactly when its set had no other member.
\<close>

theorem remove_connection:
  "(connections reg k = None \<longrightarrow> handleDisconnection k reg = reg \<and> removeConnection k reg = reg)
   \<and> (registry_inv reg \<and> connections reg k = Some conn \<longrightarrow>
        removeConnection k reg = handleDisconnection k reg
      \<and> connections (handleDisconnection k reg) = (connections reg)(k := None)
      \<and> (\<forall>c. members (channelIndex (handleDisconnection k reg)) c
               = removeAll k (members (channelIndex reg) c))
      \<and> (\<forall>u. members (userIndex (handleDisconnection k reg)) u
               = removeAll k (members (userIndex reg) u))
      \<and> (\<forall>c. channelIndex (handleDisconnection k reg) c = None
               \<longleftrightarrow> set (members (channelIndex reg) c) \<subseteq> {k})
      \<and> (\<forall>u. userIndex (handleDisconnection k reg) u = None
               \<longleftrightarrow> set (members (userIndex reg) u) \<subseteq> {k}))"
proof (intro conjI impI)
  assume "connections reg k = None"
  then show "handleDisconnection k reg = reg" by (rule handleDisconnection_unknown)
next
  assume "connections reg k = None"
  then show "removeConnection k reg = reg"
    by (simp add: removeConnection_eq handleDisconnection_unknown)
next
  assume a: "registry_inv reg \<and> connections reg k = Some conn"
  then have inv: "registry_inv reg" and c: "connections reg k = Some conn" by simp_all
  let ?reg = "handleDisconnection k reg"
  note f = handleDisconnection_fields[OF c]
  have inv': "registry_inv ?reg" by (rule registry_inv_disconnect[OF inv])
  have mc: "members (channelIndex ?reg) c' = removeAll k (members (channelIndex reg) c')" for c'
  proof (cases "c' = channel conn")
    case True then show ?thesis by (simp add: f members_index_remove)
  next
    case False
    have "k \<notin> set (members (channelIndex reg) c')"
    proof
      assume "k \<in> set (members (channelIndex reg) c')"
      from inv_channel_conn[OF inv this] c False show False by auto
    qed
    with False show ?thesis by (simp add: f members_index_remove)
  qed
  have mu: "members (userIndex ?reg) u = removeAll k (members (userIndex reg) u)" for u
  proof (cases "u = userId conn")
    case True then show ?thesis by (simp add: f members_index_remove)
  next
    case False
    have "k \<notin> set (members (userIndex reg) u)"
    proof
      assume "k \<in> set (members (userIndex reg) u)"
      from inv_user_conn[OF inv this] c False show False by auto
    qed
    with False show ?thesis by (simp add: f members_index_remove)
  qed
  have e: "(removeAll k s = []) = (set s \<subseteq> {k})" for s :: "'a list"
    by (induction s) auto
  have nc: "(channelIndex ?reg c' = None) = (set (members (channelIndex reg) c') \<subseteq> {k})" for c'
  proof -
    have "(channelIndex ?reg c' = None) = (members (channelIndex ?reg) c' = [])"
      using inv_channel_set[OF inv', of c'] by (auto simp: members_def split: option.splits)
    then show ?thesis by (simp add: mc e)
  qed
  have nu: "(userIndex ?reg u = None) = (set (members (userIndex reg) u) \<subseteq> {k})" for u
  proof -
    have "(userIndex ?reg u = None) = (members (userIndex ?reg) u = [])"
      using inv_user_set[OF inv', of u] by (auto simp: members_def split: option.splits)
    then show ?thesis by (simp add: mu e)
  qed
  show "removeConnection k reg = handleDisconnection k reg" by (rule removeConnection_eq)
  show "connections ?reg = (connections reg)(k := None)" by (rule f(1))
  show "\<forall>c. members (channelIndex ?reg) c = removeAll k (members (channelIndex reg) c)"
    using mc by blast
  show "\<forall>u. members (userIndex ?reg) u = removeAll k (members (userIndex reg) u)"
    using mu by blast
  show "\<forall>c. channelIndex ?reg c = None \<longleftrightarrow> set (members (channelIndex reg) c) \<subseteq> {k}"
    using nc by blast
  show "\<forall>u. userIndex ?reg u = None \<longleftrightarrow> set (members (userIndex reg) u) \<subseteq> {k}"
    using nu by blast
qed

theorem remove_connection_witness:
  "connections sample_worker_registry 7 = None
   \<and> removeConnection 7 sample_worker_registry = sample_worker_registry
   \<and> registry_inv sample_worker_registry
   \<and> connections sample_worker_registry 1
       = Some \<lparr>socketId = ''9f1c2a4e-0000'', channel = ''news'', userId = ''alice'',
               connectedAt = 1700000000000\<rparr>
   \<and> connections (handleDisconnection 1 sample_worker_registry) 1 = None
   \<and> channelIndex (handleDisconnection 1 sample_worker_registry) ''news'' = None
   \<and> members (userIndex (handleDisconnection 1 sample_worker_registry)) ''alice'' = [2]"
proof -
  let ?c = "\<lparr>socketId = ''9f1c2a4e-0000'', channel = ''news'', userId = ''alice'',
               connectedAt = 1700000000000\<rparr>"
  have h1: "connections sample_worker_registry 7 = None"
    by (simp add: sample_worker_registry_def registry_defs Let_def)
  have h2: "registry_inv sample_worker_registry"
    by (rule worker_reachable_inv[OF sample_worker_registry_reachable])
  have h3: "connections sample_worker_registry 1 = Some ?c"
    by (simp add: sample_worker_registry_def registry_defs Let_def)
  have mc: "members (channelIndex sample_worker_registry) ''news'' = [1]"
    by (simp add: sample_worker_registry_def registry_defs Let_def)
  have mu: "members (userIndex sample_worker_registry) ''alice'' = [1, 2]"
    by (simp add: sample_worker_registry_def registry_defs Let_def)
  from remove_connection[of sample_worker_registry 7 ?c] h1
  have a: "removeConnection 7 sample_worker_registry = sample_worker_registry" by blast
  note t = remove_connection[of sample_worker_registry 1 ?c]
  from t h2 h3 have b: "connections (handleDisconnection 1 sample_worker_registry) 1 = None"
    by simp
  from t h2 h3 have "channelIndex (handleDisconnection 1 sample_worker_registry) ''news'' = None
      \<longleftrightarrow> set (members (channelIndex sample_worker_registry) ''news'') \<subseteq> {1}"
    by blast
  with mc have c: "channelIndex (handleDisconnection 1 sample_worker_registry) ''news'' = None"
    by simp
  from t h2 h3 have "members (userIndex (handleDisconnection 1 sample_worker_registry)) ''alice''
      = removeAll 1 (members (userIndex sample_worker_registry) ''alice'')"
    by blast
  with mu have d: "members (userIndex (handleDisconnection 1 sample_worker_registry)) ''alice''
      = [2]"
    by simp
  from h1 a h2 h3 b c d show ?thesis by (intro conjI)
qed

subsection \<open>Channel statistics\<close>

lemma collect_users:
  "distinct acc \<Longrightarrow>
   distinct (fold (\<lambda>k users. case m k of None \<Rightarrow> users
                                | Some conn \<Rightarrow> set_add (userId conn) users) ks acc)
   \<and> set (fold (\<lambda>k users. case m k of None \<Rightarrow> users
                                | Some conn \<Rightarrow> set_add (userId conn) users) ks acc)
     = set acc \<union> {userId conn | k conn. k \<in> set ks \<and> m k = Some conn}"
proof (induction ks arbitrary: acc)
  case Nil then show ?case by simp
next
  case (Cons k ks)
  show ?case
  proof (cases "m k")
    case None
    with Cons.IH[OF Cons.prems] show ?thesis by auto
  next
    case (Some conn)
    have d: "distinct (set_add (userId conn) acc)"
      using Cons.prems by (simp add: set_add_def)
    have s: "set (set_add (userId conn) acc) = insert (userId conn) (set acc)"
      by (auto simp: set_add_def)
    from Cons.IH[OF d] Some s show ?thesis by auto
  qed
qed

lemma stats_fields:
  "socketCount (getChannelStats reg c) = length (members (channelIndex reg) c)"
  "userCount (getChannelStats reg c) =
     card {userId conn | k conn. k \<in> set (members (channelIndex reg) c)
                                \<and> connections reg k = Some conn}"
proof -
  show "socketCount (getChannelStats reg c) = length (members (channelIndex reg) c)"
    by (simp add: getChannelStats_def Let_def members_def split: option.splits)
  let ?f = "\<lambda>k users. case connections reg k of None \<Rightarrow> users
                                | Some conn \<Rightarrow> set_add (userId conn) users"
  have u: "userCount (getChannelStats reg c) =
      length (fold ?f (members (channelIndex reg) c) [])"
    by (simp add: getChannelStats_def Let_def members_def)
  from collect_users[of "[]" "connections reg" "members (channelIndex reg) c"]
  have d: "distinct (fold ?f (members (channelIndex reg) c) [])"
    and s: "set (fold ?f (members (channelIndex reg) c) []) =
      {userId conn | k conn. k \<in> set (members (channelIndex reg) c)
                                \<and> connections reg k = Some conn}"
    by simp_all
  from distinct_card[OF d] have "length (fold ?f (members (channelIndex reg) c) []) =
      card (set (fold ?f (members (channelIndex reg) c) []))"
    by simp
  then show "userCount (getChannelStats reg c) =
     card {userId conn | k conn. k \<in> set (members (channelIndex reg) c)
                                \<and> connections reg k = Some conn}"
    unfolding u s .
qed

text \<open>
  Claim C10. The channel statistics are defined for every registry and every channel name.
  For a channel without members, registered or not, both counts are 0. In general
  \<open>socketCount\<close> is the size of the channel's set and \<open>userCount\<close> is the number of distinct
  user ids among those members of the set that are still in the primary table. The
  worker's query is the same function.
\<close>

theorem channel_stats:
  "(members (channelIndex reg) c = [] \<longrightarrow>
       getChannelStats reg c = \<lparr>userCount = 0, socketCount = 0\<rparr>)
   \<and> socketCount (getChannelStats reg c) = length (members (channelIndex reg) c)
   \<and> userCount (getChannelStats reg c) =
       card {userId conn | k conn. k \<in> set (members (channelIndex reg) c)
                                  \<and> connections reg k = Some conn}
   \<and> handleChannelStats reg c = getChannelStats reg c"
proof -
  have "getChannelStats reg c = \<lparr>userCount = 0, socketCount = 0\<rparr>"
    if "members (channelIndex reg) c = []"
    using that by (simp add: getChannelStats_def Let_def members_def split: option.splits)
  with stats_fields[of reg c] show ?thesis by (simp add: handleChannelStats_def)
qed

theorem channel_stats_witness:
  "members (channelIndex sample_worker_registry) ''nobody'' = []
   \<and> getChannelStats sample_worker_registry ''nobody'' = \<lparr>userCount = 0, socketCount = 0\<rparr>
   \<and> socketCount (getChannelStats sample_worker_registry ''news'') = 1"
proof -
  have h: "members (channelIndex sample_worker_registry) ''nobody'' = []"
    by (simp add: sample_worker_registry_def registry_defs Let_def)
  have m: "members (channelIndex sample_worker_registry) ''news'' = [1]"
    by (simp add: sample_worker_registry_def registry_defs Let_def)
  from channel_stats[of sample_worker_registry "''nobody''"] h
  have a: "getChannelStats sample_worker_registry ''nobody'' = \<lparr>userCount = 0, socketCount = 0\<rparr>"
    by blast
  from channel_stats[of sample_worker_registry "''news''"] m
  have b: "socketCount (getChannelStats sample_worker_registry ''news'') = 1" by simp
  from h a b show ?thesis by (intro conjI)
qed

section \<open>Properties of registration names\<close>

lemma resolve_name_blank: "blank raw \<Longrightarrow> resolve_name raw g = g"
  by (simp add: blank_def resolve_name_def split: option.splits)

lemma resolve_name_given: "raw = Some s \<Longrightarrow> trim s \<noteq> [] \<Longrightarrow> resolve_name raw g = trim s"
  by (simp add: resolve_name_def)

lemma substring_2_11: "substring 2 11 rnd = take 9 (drop 2 rnd)"
  by (simp add: substring_def)

lemma resolve_name_worker_blank: "blank raw \<Longrightarrow> resolve_name (Some (str raw)) g = g"
  by (cases raw) (simp_all add: blank_def str_def trim_def resolve_name_def)

lemma resolve_name_worker_given:
  "trim s \<noteq> [] \<Longrightarrow> resolve_name (Some (str (Some s))) g = trim s"
  by (simp add: str_def resolve_name_def)

text \<open>
  Claim C5, as the code has it. When the channel (the user id) of a registration is absent
  or blank after trimming, the name is the prefix \<open>channel-\<close> (\<open>user-\<close>) followed by
  \<open>substring(2, 11)\<close> of the base-36 text of a random number: the characters at positions 2
  to 10, so at most 9 characters, exactly 9 when the text has at least 11 characters, and
  base-36 digits when the text after its first two characters consists of such digits. A
  value that is not blank is used as given after trimming. This holds for the Node service
  (where an array parameter counts by its first element) and for the worker, and the
  connection is stored under the key of its socket.
\<close>

theorem generated_names:
  "(blank (first_value rawChannel) \<longrightarrow>
      channel (fst (handleConnection sid rawChannel rawUserId rndChannel rndUser now reg))
        = ''channel-'' @ take 9 (drop 2 rndChannel))
   \<and> (blank (first_value rawUserId) \<longrightarrow>
      userId (fst (handleConnection sid rawChannel rawUserId rndChannel rndUser now reg))
        = ''user-'' @ take 9 (drop 2 rndUser))
   \<and> (\<forall>s. first_value rawChannel = Some s \<and> trim s \<noteq> [] \<longrightarrow>
      channel (fst (handleConnection sid rawChannel rawUserId rndChannel rndUser now reg))
        = trim s)
   \<and> (\<forall>s. first_value rawUserId = Some s \<and> trim s \<noteq> [] \<longrightarrow>
      userId (fst (handleConnection sid rawChannel rawUserId rndChannel rndUser now reg))
        = trim s)
   \<and> (blank wChannel \<longrightarrow>
      channel (fst (handleWebSocket ws wChannel wUserId rndChannel rndUser uuid now wreg))
        = ''channel-'' @ take 9 (drop 2 rndChannel))
   \<and> (blank wUserId \<longrightarrow>
      userId (fst (handleWebSocket ws wChannel wUserId rndChannel rndUser uuid now wreg))
        = ''user-'' @ take 9 (drop 2 rndUser))
   \<and> (\<forall>s. wChannel = Some s \<and> trim s \<noteq> [] \<longrightarrow>
      channel (fst (handleWebSocket ws wChannel wUserId rndChannel rndUser uuid now wreg))
        = trim s)
   \<and> (\<forall>s. wUserId = Some s \<and> trim s \<noteq> [] \<longrightarrow>
      userId (fst (handleWebSocket ws wChannel wUserId rndChannel rndUser uuid now wreg))
        = trim s)
   \<and> length (take 9 (drop 2 rndChannel)) \<le> 9
   \<and> (11 \<le> length rndChannel \<longrightarrow> length (take 9 (drop 2 rndChannel)) = 9)
   \<and> (list_all base36_digit (drop 2 rndChannel) \<longrightarrow>
         list_all base36_digit (take 9 (drop 2 rndChannel)))
   \<and> connections (snd (snd (handleConnection sid rawChannel rawUserId rndChannel rndUser now reg)))
         sid
        = Some (fst (handleConnection sid rawChannel rawUserId rndChannel rndUser now reg))
   \<and> connections (snd (handleWebSocket ws wChannel wUserId rndChannel rndUser uuid now wreg)) ws
        = Some (fst (handleWebSocket ws wChannel wUserId rndChannel rndUser uuid now wreg))"
proof -
  have b36: "list_all base36_digit (take 9 xs)" if "list_all base36_digit xs" for xs
    using that by (auto simp: list_all_iff dest: in_set_takeD)
  show ?thesis
    by (intro conjI impI allI)
       (simp_all add: handleConnection_def handleWebSocket_def Let_def resolve_name_blank
          resolve_name_given resolve_name_worker_blank resolve_name_worker_given
          generateChannel_def generateUserId_def substring_2_11 register_def b36)
qed

theorem generated_names_witness:
  "blank (first_value Absent)
   \<and> first_value (Multi [''  alice '', ''bob'']) = Some ''  alice ''
   \<and> trim ''  alice '' \<noteq> []
   \<and> channel (fst (handleConnection ''Zx3kQ9'' Absent (Multi [''  alice '', ''bob''])
        ''0.4fzyo82mvyr'' ''0.8dk2lq0xw1c'' 1700000000000 new_registry))
        = ''channel-4fzyo82mv''
   \<and> userId (fst (handleConnection ''Zx3kQ9'' Absent (Multi [''  alice '', ''bob''])
        ''0.4fzyo82mvyr'' ''0.8dk2lq0xw1c'' 1700000000000 new_registry))
        = ''alice''"
proof -
  have b: "blank (first_value Absent)" by (simp add: blank_def first_value_def)
  have f: "first_value (Multi [''  alice '', ''bob'']) = Some ''  alice ''"
    by (simp add: first_value_def)
  have tr: "trim ''  alice '' = ''alice''" by (simp add: trim_def js_whitespace_def)
  then have ne: "trim ''  alice '' \<noteq> []" by simp
  note t = generated_names[where rawChannel = Absent and sid = "''Zx3kQ9''"
      and rawUserId = "Multi [''  alice '', ''bob'']" and rndChannel = "''0.4fzyo82mvyr''"
      and rndUser = "''0.8dk2lq0xw1c''" and now = 1700000000000 and reg = new_registry]
  from t[THEN conjunct1] b
  have "channel (fst (handleConnection ''Zx3kQ9'' Absent (Multi [''  alice '', ''bob''])
        ''0.4fzyo82mvyr'' ''0.8dk2lq0xw1c'' 1700000000000 new_registry))
        = ''channel-'' @ take 9 (drop 2 ''0.4fzyo82mvyr'')"
    by (rule mp)
  then have c: "channel (fst (handleConnection ''Zx3kQ9'' Absent (Multi [''  alice '', ''bob''])
        ''0.4fzyo82mvyr'' ''0.8dk2lq0xw1c'' 1700000000000 new_registry))
        = ''channel-4fzyo82mv''"
    by simp
  from t[THEN conjunct2, THEN conjunct2, THEN conjunct2, THEN conjunct1] f ne
  have "userId (fst (handleConnection ''Zx3kQ9'' Absent (Multi [''  alice '', ''bob''])
        ''0.4fzyo82mvyr'' ''0.8dk2lq0xw1c'' 1700000000000 new_registry))
        = trim ''  alice ''"
    by blast
  with tr have u: "userId (fst (handleConnection ''Zx3kQ9'' Absent (Multi [''  alice '', ''bob''])
        ''0.4fzyo82mvyr'' ''0.8dk2lq0xw1c'' 1700000000000 new_registry))
        = ''alice''"
    by simp
  from b f ne c u show ?thesis by (intro conjI)
qed

text \<open>
  The claim as written asks for exactly 8 characters after the prefix. For the random text
  \<open>0.4fzyo82mvyr\<close> the generated channel has 9.
\<close>

theorem generated_names_counterexample:
  "channel (fst (handleConnection ''Zx3kQ9'' Absent (Single ''alice'') ''0.4fzyo82mvyr''
       ''0.8dk2lq0xw1c'' 1700000000000 new_registry)) = ''channel-4fzyo82mv''
   \<and> length (substring 2 11 ''0.4fzyo82mvyr'') = 9
   \<and> length (substring 2 11 ''0.4fzyo82mvyr'') \<noteq> 8"
  by (simp add: handleConnection_def Let_def resolve_name_def first_value_def
      generateChannel_def substring_def)

section \<open>Properties of dispatch\<close>

subsection \<open>The loops of the worker and of the Node service\<close>




















subsection \<open>Delivered count and failed pushes\<close>




subsection \<open>Target resolution\<close>



end
